theory Spec2Isabelle
  imports
    Complex_Main
    "HOL-Library.Word"
    "HOL-Library.Char_ord"
    "HOL-Library.List_Lexorder"
    "HOL-Library.Product_Lexorder"
begin

section \<open>The weather pipeline of \<^verbatim>\<open>weather_analysis.py\<close>\<close>

text \<open>
  The script synthesises thirty days of temperatures for six cities, writes them to a CSV
  file, draws two charts and copies the three files to and from HDFS. Everything it
  computes goes through library calls (\<^verbatim>\<open>datetime\<close>, \<^verbatim>\<open>random\<close>, \<^verbatim>\<open>round\<close>,
  pandas, numpy, \<^verbatim>\<open>os.system\<close>); each is modelled below by what it returns, with its
  failures as values of \<open>pyerror\<close>.
\<close>

subsection \<open>Errors\<close>

datatype pyerror = OverflowError | ValueError | OutOfBoundsDatetime

subsection \<open>Dates\<close>

text \<open>
  A \<^verbatim>\<open>datetime.date\<close> is identified with its proleptic Gregorian ordinal
  (\<^verbatim>\<open>date.toordinal()\<close>): day 1 is 0001-01-01 and the last date, 9999-12-31, is day
  3652059. \<^verbatim>\<open>datetime.timedelta(days=k)\<close> refuses more than 999999999 days, and
  \<^verbatim>\<open>date - timedelta\<close> raises \<^verbatim>\<open>OverflowError\<close> when the result is not a date.
\<close>

type_synonym pydate = int

definition MAXORDINAL :: int where
  "MAXORDINAL = 3652059"

definition valid_date :: "pydate \<Rightarrow> bool" where
  "valid_date d = (0 < d \<and> d \<le> MAXORDINAL)"

definition timedelta :: "int \<Rightarrow> pyerror + int" where
  "timedelta days = (if \<bar>days\<bar> > 999999999 then Inl OverflowError else Inr days)"

definition date_sub :: "pydate \<Rightarrow> int \<Rightarrow> pyerror + pydate" where
  "date_sub d delta =
     (let ord = d - delta
      in if 0 < ord \<and> ord \<le> MAXORDINAL then Inr ord else Inl OverflowError)"

subsection \<open>Floating point: \<^verbatim>\<open>random.uniform\<close> and \<^verbatim>\<open>round\<close>\<close>

text \<open>
  A double is modelled by the rational it denotes. \<open>fl\<close> rounds a rational to the nearest
  double, ties to even (53 significant bits; the exponent range plays no part for the
  magnitudes of this program). \<open>rhe\<close> is rounding to the nearest integer, ties to even.
\<close>

fun bits :: "nat \<Rightarrow> nat" where
  "bits n = (if n = 0 then 0 else Suc (bits (n div 2)))"

declare bits.simps [simp del]

definition ilog2 :: "rat \<Rightarrow> int" where
  "ilog2 x = (let (p, q) = quotient_of x; e = int (bits (nat p)) - int (bits (nat q))
              in if 2 powi e \<le> x then e else e - 1)"

definition rhe :: "rat \<Rightarrow> int" where
  "rhe x = (let f = \<lfloor>x\<rfloor>; d = x - of_int f
            in if d < 1 / 2 then f else if 1 / 2 < d then f + 1
               else if even f then f else f + 1)"

definition fl :: "rat \<Rightarrow> rat" where
  "fl x = (if x = 0 then 0
           else let u = 2 powi (ilog2 \<bar>x\<bar> - 52) in of_int (rhe (x / u)) * u)"

text \<open>
  The generator is the sequence of the 53-bit integers behind successive calls of
  \<^verbatim>\<open>random.random()\<close>, which returns \<open>k / 2^53\<close>; the script never seeds it, so the
  sequence is an input. A call takes the first integer and leaves the rest.
  \<^verbatim>\<open>random.uniform(a, b)\<close> is \<^verbatim>\<open>a + (b - a) * random()\<close>, the product and the sum each
  rounded to a double.
\<close>

type_synonym rng = "nat \<Rightarrow> 53 word"

definition random_random :: "rng \<Rightarrow> rat \<times> rng" where
  "random_random g = (of_nat (unat (g 0)) / 2 ^ 53, (\<lambda>k. g (Suc k)))"

definition uniform :: "int \<Rightarrow> int \<Rightarrow> rng \<Rightarrow> rat \<times> rng" where
  "uniform a b g =
     (let (r, g') = random_random g
      in (fl (of_int a + fl (of_int (b - a) * r)), g'))"

text \<open>
  \<^verbatim>\<open>round(x, 1)\<close> rounds the exact value of \<open>x\<close> to one decimal, ties to even, and
  returns the double nearest to that decimal. That double is identified by the decimal
  itself: a sign and a number of tenths (\<^verbatim>\<open>round(-0.04, 1)\<close> is \<^verbatim>\<open>-0.0\<close>, so the sign
  stands apart). \<open>dec_value\<close> is the decimal as a number.
\<close>

datatype dec1 = Dec1 (negative: bool) (tenths: nat)

definition py_round1 :: "rat \<Rightarrow> dec1" where
  "py_round1 x = Dec1 (x < 0) (nat (rhe (\<bar>x\<bar> * 10)))"

definition dec_value :: "dec1 \<Rightarrow> rat" where
  "dec_value t = (if negative t then - (of_nat (tenths t) / 10) else of_nat (tenths t) / 10)"

subsection \<open>The data frame\<close>

text \<open>
  A cell of the \<^verbatim>\<open>date\<close> column holds a \<^verbatim>\<open>datetime.date\<close> or, after
  \<^verbatim>\<open>pd.to_datetime\<close>, the pandas timestamp at midnight of a day. A frame is the list of
  its rows, in index order.
\<close>

datatype datecell = DateObj pydate | Timestamp pydate

record reading =
  date :: datecell
  city :: string
  temperature :: dec1

type_synonym dataframe = "reading list"

subsection \<open>\<^verbatim>\<open>generate_weather_data\<close>\<close>

definition py_range :: "int \<Rightarrow> int list" where
  "py_range n = map int [0..<nat n]"

text \<open>
  The inner loop, \<^verbatim>\<open>for i in range(n)\<close>, for one city; the state is the list
  \<^verbatim>\<open>data\<close> and the generator.
\<close>

fun day_loop ::
  "int \<Rightarrow> pydate \<Rightarrow> string \<Rightarrow> int list \<Rightarrow> reading list \<times> rng \<Rightarrow> pyerror + reading list \<times> rng"
where
  "day_loop n today c [] st = Inr st"
| "day_loop n today c (i # is) (data, g) =
     (case timedelta (n - i) of
        Inl e \<Rightarrow> Inl e
      | Inr td \<Rightarrow>
          (case date_sub today td of
             Inl e \<Rightarrow> Inl e
           | Inr date_i \<Rightarrow>
               (let (temp, g') = uniform (- 5) 35 g
                in day_loop n today c is
                     (data @ [\<lparr>date = DateObj date_i, city = c, temperature = py_round1 temp\<rparr>], g'))))"

text \<open>The outer loop, \<^verbatim>\<open>for city in cities\<close>.\<close>

fun city_loop ::
  "int \<Rightarrow> pydate \<Rightarrow> string list \<Rightarrow> reading list \<times> rng \<Rightarrow> pyerror + reading list \<times> rng"
where
  "city_loop n today [] st = Inr st"
| "city_loop n today (c # cs) st =
     (case day_loop n today c (py_range n) st of
        Inl e \<Rightarrow> Inl e
      | Inr st' \<Rightarrow> city_loop n today cs st')"

text \<open>
  The body of \<^verbatim>\<open>generate_weather_data\<close> with its two constants, the city list and the
  number of days, as parameters; \<open>today\<close> is what \<^verbatim>\<open>datetime.date.today()\<close> returned.
  The result is the frame and the generator left behind.
\<close>

definition generate_for ::
  "string list \<Rightarrow> int \<Rightarrow> pydate \<Rightarrow> rng \<Rightarrow> pyerror + dataframe \<times> rng"
where
  "generate_for cities n today g = city_loop n today cities ([], g)"

definition cities :: "string list" where
  "cities = [''London'', ''New York'', ''Tokyo'', ''Berlin'', ''Moscow'', ''Sydney'']"

definition generate_weather_data :: "pydate \<Rightarrow> rng \<Rightarrow> pyerror + dataframe \<times> rng" where
  "generate_weather_data today g = generate_for cities 30 today g"

text \<open>The key of a reading, and the keys the loops produce, in the loops' order.\<close>

definition key_of :: "reading \<Rightarrow> string \<times> datecell" where
  "key_of r = (city r, date r)"

definition window_keys :: "string list \<Rightarrow> int \<Rightarrow> pydate \<Rightarrow> (string \<times> datecell) list" where
  "window_keys cs n today =
     concat (map (\<lambda>c. map (\<lambda>i. (c, DateObj (today - n + i))) (py_range n)) cs)"

text \<open>The frame of a result; a failed call has produced none.\<close>

definition frame_of :: "pyerror + dataframe \<times> rng \<Rightarrow> dataframe" where
  "frame_of r = (case r of Inl e \<Rightarrow> [] | Inr (df, g) \<Rightarrow> df)"

subsection \<open>\<^verbatim>\<open>save_results_to_hdfs\<close> and \<^verbatim>\<open>get_results_from_hdfs\<close>\<close>

text \<open>
  \<^verbatim>\<open>os.system(cmd)\<close> hands the command to a subshell and returns its wait status; the
  only thing it raises is \<^verbatim>\<open>ValueError\<close>, for a command with a NUL character. The
  shell, the \<^verbatim>\<open>hadoop\<close> client and both file systems are the environment: a function
  from the command and the world before to the status and the world after.
\<close>

type_synonym 'w shell = "string \<Rightarrow> 'w \<Rightarrow> int \<times> 'w"

definition os_system :: "'w shell \<Rightarrow> string \<Rightarrow> 'w \<Rightarrow> pyerror + int \<times> 'w" where
  "os_system sh cmd w = (if CHR 0x00 \<in> set cmd then Inl ValueError else Inr (sh cmd w))"

text \<open>
  Both functions build the command, print it and call \<^verbatim>\<open>os.system\<close> as a statement:
  the status is dropped and the function returns \<^verbatim>\<open>None\<close>.
\<close>

definition save_results_to_hdfs ::
  "'w shell \<Rightarrow> string \<Rightarrow> string \<Rightarrow> 'w \<Rightarrow> pyerror + unit \<times> 'w"
where
  "save_results_to_hdfs sh local_path hdfs_path w =
     (let cmd = ''hadoop fs -put -f '' @ local_path @ '' '' @ hdfs_path
      in case os_system sh cmd w of
           Inl e \<Rightarrow> Inl e
         | Inr (status, w') \<Rightarrow> Inr ((), w'))"

definition get_results_from_hdfs ::
  "'w shell \<Rightarrow> string \<Rightarrow> string \<Rightarrow> 'w \<Rightarrow> pyerror + unit \<times> 'w"
where
  "get_results_from_hdfs sh hdfs_path local_path w =
     (let cmd = ''hadoop fs -get -f '' @ hdfs_path @ '' '' @ local_path
      in case os_system sh cmd w of
           Inl e \<Rightarrow> Inl e
         | Inr (status, w') \<Rightarrow> Inr ((), w'))"

text \<open>A reading whose temperature is \<^verbatim>\<open>round(x, 1)\<close> of a double between -5 and 35.\<close>

definition drawn :: "reading \<Rightarrow> bool" where
  "drawn r = (\<exists>x. - 5 \<le> x \<and> x \<le> 35 \<and> temperature r = py_round1 x)"

subsection \<open>The calendar behind \<^verbatim>\<open>str(date)\<close>\<close>

text \<open>
  \<^verbatim>\<open>datetime\<close> turns an ordinal into year, month and day with \<^verbatim>\<open>_ord2ymd\<close> and back
  with \<^verbatim>\<open>_ymd2ord\<close>; both are transcribed with their tables. \<^verbatim>\<open>(n + 50) >> 5\<close> is
  division by 32.
\<close>

definition DAYS_IN_MONTH :: "int list" where
  "DAYS_IN_MONTH = [- 1, 31, 28, 31, 30, 31, 30, 31, 31, 30, 31, 30, 31]"

definition DAYS_BEFORE_MONTH :: "int list" where
  "DAYS_BEFORE_MONTH = [- 1, 0, 31, 59, 90, 120, 151, 181, 212, 243, 273, 304, 334]"

definition py_int :: "bool \<Rightarrow> int" where
  "py_int b = (if b then 1 else 0)"

definition is_leap :: "int \<Rightarrow> bool" where
  "is_leap year = (year mod 4 = 0 \<and> (year mod 100 \<noteq> 0 \<or> year mod 400 = 0))"

definition days_before_year :: "int \<Rightarrow> int" where
  "days_before_year year =
     (let y = year - 1 in y * 365 + y div 4 - y div 100 + y div 400)"

definition days_before_month :: "int \<Rightarrow> int \<Rightarrow> int" where
  "days_before_month year month =
     DAYS_BEFORE_MONTH ! nat month + py_int (month > 2 \<and> is_leap year)"

definition ymd2ord :: "int \<Rightarrow> int \<Rightarrow> int \<Rightarrow> int" where
  "ymd2ord year month day = days_before_year year + days_before_month year month + day"

definition ord2ymd :: "int \<Rightarrow> int \<times> int \<times> int" where
  "ord2ymd ordinal =
     (let n = ordinal - 1;
          n400 = n div 146097; n = n mod 146097;
          year = n400 * 400 + 1;
          n100 = n div 36524; n = n mod 36524;
          n4 = n div 1461; n = n mod 1461;
          n1 = n div 365; n = n mod 365;
          year = year + n100 * 100 + n4 * 4 + n1
      in if n1 = 4 \<or> n100 = 4 then (year - 1, 12, 31)
         else
           let leapyear = (n1 = 3 \<and> (n4 \<noteq> 24 \<or> n100 = 3));
               month = (n + 50) div 32;
               preceding = DAYS_BEFORE_MONTH ! nat month + py_int (month > 2 \<and> leapyear);
               (month, preceding) =
                 (if preceding > n
                  then (month - 1,
                        preceding - (DAYS_IN_MONTH ! nat (month - 1) + py_int (month - 1 = 2 \<and> leapyear)))
                  else (month, preceding))
           in (year, month, n - preceding + 1))"

text \<open>The last part of \<open>ord2ymd\<close>, month and day from the day of the year, on its own.\<close>

definition month_day :: "bool \<Rightarrow> int \<Rightarrow> int \<times> int" where
  "month_day leapyear n =
     (let month = (n + 50) div 32;
          preceding = DAYS_BEFORE_MONTH ! nat month + py_int (month > 2 \<and> leapyear);
          (month, preceding) =
            (if preceding > n
             then (month - 1,
                   preceding - (DAYS_IN_MONTH ! nat (month - 1) + py_int (month - 1 = 2 \<and> leapyear)))
             else (month, preceding))
      in (month, n - preceding + 1))"

subsection \<open>Writing the CSV file\<close>

text \<open>
  \<^verbatim>\<open>str\<close> of a natural number, and the zero padding of \<^verbatim>\<open>%04d\<close> and \<^verbatim>\<open>%02d\<close>.
\<close>

definition digit_char :: "nat \<Rightarrow> char" where
  "digit_char d = char_of (48 + d)"

fun str_nat :: "nat \<Rightarrow> string" where
  "str_nat n = (if n < 10 then [digit_char n] else str_nat (n div 10) @ [digit_char (n mod 10)])"

declare str_nat.simps [simp del]

definition zfill :: "nat \<Rightarrow> string \<Rightarrow> string" where
  "zfill w s = replicate (w - length s) (CHR ''0'') @ s"

text \<open>\<^verbatim>\<open>str(date)\<close> is \<^verbatim>\<open>date.isoformat()\<close>: \<^verbatim>\<open>"%04d-%02d-%02d" % (year, month, day)\<close>.\<close>

definition isoformat :: "pydate \<Rightarrow> string" where
  "isoformat d =
     (let (year, month, day) = ord2ymd d
      in zfill 4 (str_nat (nat year)) @ ''-'' @ zfill 2 (str_nat (nat month)) @ ''-'' @
         zfill 2 (str_nat (nat day)))"

text \<open>
  The text of a temperature: the shortest decimal that reads back as the same double,
  which for the double nearest to a number of tenths is that number with its one decimal
  (\<^verbatim>\<open>12.3\<close>, \<^verbatim>\<open>35.0\<close>, \<^verbatim>\<open>-0.0\<close>).
\<close>

definition float_repr :: "dec1 \<Rightarrow> string" where
  "float_repr t =
     (if negative t then ''-'' else '''') @ str_nat (tenths t div 10) @ ''.'' @
     str_nat (tenths t mod 10)"

text \<open>
  A date cell is written as its day: \<^verbatim>\<open>str\<close> of a \<^verbatim>\<open>datetime.date\<close>, and the date-only
  format pandas gives a column of midnight timestamps.
\<close>

fun cell_str :: "datecell \<Rightarrow> string" where
  "cell_str (DateObj d) = isoformat d"
| "cell_str (Timestamp d) = isoformat d"

text \<open>
  The \<^verbatim>\<open>csv\<close> writer quotes a field only when it holds the delimiter, the quote
  character or a line break (\<^verbatim>\<open>QUOTE_MINIMAL\<close>), doubling the quotes inside.
\<close>

definition csv_special :: "char \<Rightarrow> bool" where
  "csv_special c = (c = CHR '','' \<or> c = CHR 0x22 \<or> c = CHR 0x0A \<or> c = CHR 0x0D)"

definition csv_field :: "string \<Rightarrow> string" where
  "csv_field s =
     (if list_ex csv_special s
      then [CHR 0x22] @ concat (map (\<lambda>c. if c = CHR 0x22 then [c, c] else [c]) s) @ [CHR 0x22]
      else s)"

definition csv_header :: string where
  "csv_header = ''date,city,temperature''"

definition csv_row :: "reading \<Rightarrow> string" where
  "csv_row r = cell_str (date r) @ '','' @ csv_field (city r) @ '','' @ float_repr (temperature r)"

text \<open>
  \<^verbatim>\<open>df.to_csv(path, index=False)\<close>: the text written to the file, the header and one
  line per row, each ended by a line feed.
\<close>

definition to_csv :: "dataframe \<Rightarrow> string" where
  "to_csv df = concat (map (\<lambda>l. l @ [CHR 0x0A]) (csv_header # map csv_row df))"

subsection \<open>Reading the file's text\<close>

text \<open>
  The shapes the claims speak of: a decimal digit, a date written \<^verbatim>\<open>YYYY-MM-DD\<close>, a
  number with exactly one digit after the point (an optional sign, at least one digit, the
  point, one digit), and the lines of a text ended by line feeds.
\<close>

definition is_digit :: "char \<Rightarrow> bool" where
  "is_digit c = (48 \<le> (of_char c :: nat) \<and> (of_char c :: nat) \<le> 57)"

definition iso_shape :: "string \<Rightarrow> bool" where
  "iso_shape s =
     (length s = 10 \<and> s ! 4 = CHR ''-'' \<and> s ! 7 = CHR ''-'' \<and>
      list_all is_digit (take 4 s) \<and> list_all is_digit (take 2 (drop 5 s)) \<and>
      list_all is_digit (drop 8 s))"

definition one_decimal :: "string \<Rightarrow> bool" where
  "one_decimal s =
     (let u = (case s of [] \<Rightarrow> [] | c # t \<Rightarrow> if c = CHR ''-'' then t else s)
      in 3 \<le> length u \<and> list_all is_digit (take (length u - 2) u) \<and>
         u ! (length u - 2) = CHR ''.'' \<and> is_digit (last u))"

fun split_on :: "char \<Rightarrow> string \<Rightarrow> string list" where
  "split_on sep [] = [[]]"
| "split_on sep (c # cs) =
     (if c = sep then [] # split_on sep cs
      else (case split_on sep cs of [] \<Rightarrow> [[c]] | w # ws \<Rightarrow> (c # w) # ws))"

definition lines_of :: "string \<Rightarrow> string list" where
  "lines_of s = (let ls = split_on (CHR 0x0A) s in if last ls = [] then butlast ls else ls)"

subsection \<open>\<^verbatim>\<open>plot_temperature_changes\<close>\<close>

text \<open>
  \<^verbatim>\<open>pd.to_datetime\<close> turns a date into the timestamp of its midnight, kept as
  nanoseconds since 1970-01-01 (day 719163) in 64 bits: a day whose midnight does not fit
  raises \<^verbatim>\<open>OutOfBoundsDatetime\<close>, and the whole column is converted or none of it.
\<close>

definition to_datetime_cell :: "datecell \<Rightarrow> pyerror + datecell" where
  "to_datetime_cell c =
     (case c of
        Timestamp d \<Rightarrow> Inr (Timestamp d)
      | DateObj d \<Rightarrow>
          (let ns = (d - 719163) * 86400000000000
           in if - (2 ^ 63) < ns \<and> ns < 2 ^ 63 then Inr (Timestamp d)
              else Inl OutOfBoundsDatetime))"

fun to_datetime :: "datecell list \<Rightarrow> pyerror + datecell list" where
  "to_datetime [] = Inr []"
| "to_datetime (c # cs) =
     (case to_datetime_cell c of
        Inl e \<Rightarrow> Inl e
      | Inr t \<Rightarrow> (case to_datetime cs of Inl e \<Rightarrow> Inl e | Inr ts \<Rightarrow> Inr (t # ts)))"

text \<open>The assignment \<^verbatim>\<open>df["date"] = ...\<close>: the frame with its date column replaced.\<close>

definition set_date_column :: "dataframe \<Rightarrow> datecell list \<Rightarrow> dataframe" where
  "set_date_column df col = map (\<lambda>(r, c). r\<lparr>date := c\<rparr>) (zip df col)"

text \<open>
  \<^verbatim>\<open>df.sort_values(by=["city", "date"])\<close> returns a new frame, sorted by city and then
  by day, rows with equal keys in their old order; \<^verbatim>\<open>unique\<close> lists the values of a
  column in the order of their first appearance.
\<close>

fun cell_day :: "datecell \<Rightarrow> pydate" where
  "cell_day (DateObj d) = d"
| "cell_day (Timestamp d) = d"

definition sort_values :: "dataframe \<Rightarrow> dataframe" where
  "sort_values df = sort_key (\<lambda>r. (city r, cell_day (date r))) df"

definition unique :: "'a list \<Rightarrow> 'a list" where
  "unique xs = rev (remdups (rev xs))"

text \<open>
  What is drawn: one line per city, labelled with the city, through the points (date,
  temperature) of its rows. The function returns nothing; its effects are the caller's
  frame, the first component of the result, and the chart, or the error it raised.
\<close>

type_synonym chart = "(string \<times> (datecell \<times> dec1) list) list"

definition plot_temperature_changes :: "dataframe \<Rightarrow> dataframe \<times> (pyerror + chart)" where
  "plot_temperature_changes df =
     (case to_datetime (map date df) of
        Inl e \<Rightarrow> (df, Inl e)
      | Inr col \<Rightarrow>
          (let df = set_date_column df col;
               sorted = sort_values df;
               cities = unique (map city sorted)
           in (df, Inr (map (\<lambda>c. (c, map (\<lambda>r. (date r, temperature r))
                                        (filter (\<lambda>r. city r = c) sorted))) cities))))"

subsection \<open>\<^verbatim>\<open>plot_temperature_distribution\<close>\<close>

text \<open>
  \<^verbatim>\<open>plt.hist(x, bins=20)\<close> is \<^verbatim>\<open>numpy.histogram\<close> over the range from the smallest to
  the largest value (from 0 to 1 for no values), widened by one half on both sides when
  the two are equal. A value goes to bin \<^verbatim>\<open>floor((x - first) / (last - first) * bins)\<close>,
  the right end to the last bin. The arithmetic is exact here.
\<close>

record histogram =
  edges :: "rat list"
  counts :: "nat list"

definition outer_edges :: "rat list \<Rightarrow> rat \<times> rat" where
  "outer_edges xs =
     (let (first_edge, last_edge) = (if xs = [] then (0, 1) else (Min (set xs), Max (set xs)))
      in if first_edge = last_edge then (first_edge - 1 / 2, last_edge + 1 / 2)
         else (first_edge, last_edge))"

definition bin_index :: "rat \<Rightarrow> rat \<Rightarrow> nat \<Rightarrow> rat \<Rightarrow> int" where
  "bin_index first_edge last_edge bins x =
     (let i = \<lfloor>(x - first_edge) / (last_edge - first_edge) * of_nat bins\<rfloor>
      in if i = int bins then i - 1 else i)"

definition np_histogram :: "rat list \<Rightarrow> nat \<Rightarrow> histogram" where
  "np_histogram xs bins =
     (let (first_edge, last_edge) = outer_edges xs;
          keep = filter (\<lambda>x. first_edge \<le> x \<and> x \<le> last_edge) xs
      in \<lparr>edges = map (\<lambda>i. first_edge + of_nat i * ((last_edge - first_edge) / of_nat bins)) [0..<Suc bins],
          counts = map (\<lambda>j. length (filter (\<lambda>x. bin_index first_edge last_edge bins x = int j) keep))
                     [0..<bins]\<rparr>)"

definition plot_temperature_distribution :: "dataframe \<Rightarrow> dataframe \<times> histogram" where
  "plot_temperature_distribution df =
     (df, np_histogram (map (\<lambda>r. dec_value (temperature r)) df) 20)"

section \<open>Reading the written text back\<close>

text \<open>
  What a reader of the file sees in a field: the number a run of decimal digits stands
  for, the year, month and day of a date written \<^verbatim>\<open>YYYY-MM-DD\<close>, and the decimal number
  of a field with one digit after the point (the sign is kept, as in \<^verbatim>\<open>-0.0\<close>).
\<close>

definition digit_val :: "char \<Rightarrow> nat" where
  "digit_val c = of_char c - 48"

definition digits_value :: "string \<Rightarrow> nat" where
  "digits_value s = foldl (\<lambda>a c. 10 * a + digit_val c) 0 s"

definition read_ymd :: "string \<Rightarrow> int \<times> int \<times> int" where
  "read_ymd s =
     (int (digits_value (take 4 s)), int (digits_value (take 2 (drop 5 s))),
      int (digits_value (drop 8 s)))"

definition read_decimal :: "string \<Rightarrow> dec1" where
  "read_decimal s =
     (let neg = (s \<noteq> [] \<and> hd s = CHR ''-'');
          u = (if neg then tl s else s)
      in Dec1 neg (10 * digits_value (take (length u - 2) u) + digits_value [last u]))"

text \<open>
  A line of the file shows a reading when its three fields between commas are: a date
  of the shape \<^verbatim>\<open>YYYY-MM-DD\<close> whose three numbers are the year, month and day of the
  reading's date (through \<^verbatim>\<open>date(y, m, d).toordinal()\<close> and back), the reading's city,
  and a number with one digit after the point that is the reading's temperature.
\<close>

definition line_shows :: "string \<Rightarrow> reading \<Rightarrow> bool" where
  "line_shows l r =
     (case split_on (CHR '','') l of
        [a, b, c] \<Rightarrow>
          iso_shape a \<and>
          (case read_ymd a of
             (y, m, d) \<Rightarrow>
               1 \<le> m \<and> m \<le> 12 \<and> 1 \<le> d \<and> d \<le> 31 \<and> date r = DateObj (ymd2ord y m d) \<and>
               ord2ymd (ymd2ord y m d) = (y, m, d)) \<and>
          b = city r \<and>
          one_decimal c \<and> read_decimal c = temperature r
      | _ \<Rightarrow> False)"

section \<open>Properties of the generator\<close>

lemma day_loop_keys:
  assumes "\<forall>i \<in> set is. 0 \<le> i \<and> i < n" and "n < today" and "today \<le> MAXORDINAL"
  shows "\<exists>data' g'. day_loop n today c is (data, g) = Inr (data', g') \<and>
           map key_of data' = map key_of data @ map (\<lambda>i. (c, DateObj (today - n + i))) is"
  using assms(1)
proof (induction "is" arbitrary: data g)
  case Nil
  then show ?case by simp
next
  case (Cons i "is")
  obtain temp g1 where u: "uniform (- 5) 35 g = (temp, g1)"
    by (cases "uniform (- 5) 35 g")
  from Cons.prems have i: "0 \<le> i" "i < n" and rest: "\<forall>j \<in> set is. 0 \<le> j \<and> j < n"
    by auto
  have n_small: "n \<le> MAXORDINAL"
    using assms(2,3) by simp
  have td: "timedelta (n - i) = Inr (n - i)"
    using i n_small by (simp add: timedelta_def MAXORDINAL_def)
  have ds: "date_sub today (n - i) = Inr (today - n + i)"
    using i assms(2,3) by (simp add: date_sub_def Let_def)
  from Cons.IH [OF rest, of "data @ [\<lparr>date = DateObj (today - n + i), city = c,
      temperature = py_round1 temp\<rparr>]" g1]
  show ?case
    by (auto simp: td ds u key_of_def)
qed

lemma set_py_range: "set (py_range n) = {0..<n}"
proof -
  have "int ` {0..<nat n} = {0..<n}"
  proof (rule set_eqI)
    fix x :: int
    show "x \<in> int ` {0..<nat n} \<longleftrightarrow> x \<in> {0..<n}"
    proof
      assume "x \<in> int ` {0..<nat n}"
      then show "x \<in> {0..<n}" by auto
    next
      assume "x \<in> {0..<n}"
      then have "x = int (nat x)" "nat x \<in> {0..<nat n}" by auto
      then show "x \<in> int ` {0..<nat n}" by (rule image_eqI)
    qed
  qed
  then show ?thesis by (simp add: py_range_def)
qed

lemma length_py_range: "length (py_range n) = nat n"
  by (simp add: py_range_def)

lemma distinct_py_range: "distinct (py_range n)"
  by (simp add: py_range_def distinct_map)

lemma py_range_nonpos: "n \<le> 0 \<Longrightarrow> py_range n = []"
  by (simp add: py_range_def)

lemma day_loop_range:
  assumes "n < today" and "today \<le> MAXORDINAL"
  shows "\<exists>data' g'. day_loop n today c (py_range n) (data, g) = Inr (data', g') \<and>
           map key_of data' = map key_of data @ map (\<lambda>i. (c, DateObj (today - n + i))) (py_range n)"
proof -
  have "\<forall>i \<in> set (py_range n). 0 \<le> i \<and> i < n"
    by (simp add: set_py_range)
  then show ?thesis
    using assms by (rule day_loop_keys)
qed

lemma city_loop_keys:
  assumes "n < today" and "today \<le> MAXORDINAL"
  shows "\<exists>data' g'. city_loop n today cs (data, g) = Inr (data', g') \<and>
           map key_of data' = map key_of data @ window_keys cs n today"
proof (induction cs arbitrary: data g)
  case Nil
  show ?case by (simp add: window_keys_def)
next
  case (Cons c cs)
  from day_loop_range [OF assms, of c data g]
  obtain data1 g1 where
    d: "day_loop n today c (py_range n) (data, g) = Inr (data1, g1)" and
    k: "map key_of data1 = map key_of data @ map (\<lambda>i. (c, DateObj (today - n + i))) (py_range n)"
    by blast
  from Cons.IH [of data1 g1]
  obtain data2 g2 where
    c2: "city_loop n today cs (data1, g1) = Inr (data2, g2)" and
    k2: "map key_of data2 = map key_of data1 @ window_keys cs n today"
    by blast
  have "city_loop n today (c # cs) (data, g) = Inr (data2, g2)"
    by (simp add: d c2)
  moreover have "map key_of data2 = map key_of data @ window_keys (c # cs) n today"
    by (simp add: k2 k window_keys_def)
  ultimately show ?case by blast
qed

lemma generate_for_keys:
  assumes "n < today" and "today \<le> MAXORDINAL"
  shows "\<exists>df g'. generate_for cs n today g = Inr (df, g') \<and> map key_of df = window_keys cs n today"
  using city_loop_keys [OF assms, of cs "[]" g] by (simp add: generate_for_def)

lemma city_loop_nonpos: "n \<le> 0 \<Longrightarrow> city_loop n today cs st = Inr st"
  by (induction cs) (simp_all add: py_range_nonpos)

lemma generate_for_nonpos: "n \<le> 0 \<Longrightarrow> generate_for cs n today g = Inr ([], g)"
  by (simp add: generate_for_def city_loop_nonpos)

lemma generate_for_no_city: "generate_for [] n today g = Inr ([], g)"
  by (simp add: generate_for_def)

lemma py_range_pos: "0 < n \<Longrightarrow> py_range n = 0 # map int [1..<nat n]"
  by (simp add: py_range_def upt_conv_Cons)

lemma day_loop_overflow:
  assumes "0 < n" and "today \<le> n"
  shows "day_loop n today c (py_range n) (data, g) = Inl OverflowError"
proof (cases "999999999 < n")
  case True
  then show ?thesis
    using assms by (simp add: py_range_pos timedelta_def)
next
  case False
  then show ?thesis
    using assms by (simp add: py_range_pos timedelta_def date_sub_def)
qed

lemma generate_for_overflow:
  assumes "cs \<noteq> []" and "0 < n" and "today \<le> n"
  shows "generate_for cs n today g = Inl OverflowError"
proof -
  obtain c cs' where "cs = c # cs'"
    using assms(1) by (cases cs) auto
  then show ?thesis
    by (simp add: generate_for_def day_loop_overflow [OF assms(2,3)])
qed

lemma length_window_keys: "length (window_keys cs n today) = length cs * nat n"
  by (induction cs) (simp_all add: window_keys_def length_py_range)

lemma set_window_keys:
  "set (window_keys cs n today) = set cs \<times> DateObj ` {today - n..<today}"
proof -
  have "(\<lambda>i. today - n + i) ` {0..<n} = {today - n..<today}"
  proof (rule set_eqI)
    fix x :: int
    show "x \<in> (\<lambda>i. today - n + i) ` {0..<n} \<longleftrightarrow> x \<in> {today - n..<today}"
    proof
      assume "x \<in> (\<lambda>i. today - n + i) ` {0..<n}"
      then show "x \<in> {today - n..<today}" by auto
    next
      assume "x \<in> {today - n..<today}"
      then have "x = today - n + (x - (today - n))" "x - (today - n) \<in> {0..<n}" by auto
      then show "x \<in> (\<lambda>i. today - n + i) ` {0..<n}" by (rule image_eqI)
    qed
  qed
  then have img: "(\<lambda>i. DateObj (today - n + i)) ` {0..<n} = DateObj ` {today - n..<today}"
    by (simp add: image_image [symmetric])
  have "set (window_keys cs n today) =
          (\<Union>c \<in> set cs. Pair c ` ((\<lambda>i. DateObj (today - n + i)) ` {0..<n}))"
    by (simp add: window_keys_def set_py_range image_image)
  also have "\<dots> = (\<Union>c \<in> set cs. Pair c ` (DateObj ` {today - n..<today}))"
    by (simp only: img)
  also have "\<dots> = set cs \<times> DateObj ` {today - n..<today}"
    by auto
  finally show ?thesis .
qed

lemma distinct_window_keys: "distinct cs \<Longrightarrow> distinct (window_keys cs n today)"
proof (induction cs)
  case Nil
  show ?case by (simp add: window_keys_def)
next
  case (Cons c cs)
  have "inj_on (\<lambda>i. (c, DateObj (today - n + i))) (set (py_range n))"
    by (rule inj_onI) simp
  then have d1: "distinct (map (\<lambda>i. (c, DateObj (today - n + i))) (py_range n))"
    by (simp add: distinct_map distinct_py_range)
  have d2: "distinct (window_keys cs n today)"
    using Cons by simp
  have "fst ` set (window_keys cs n today) \<subseteq> set cs"
    by (auto simp: set_window_keys)
  then have d3: "set (map (\<lambda>i. (c, DateObj (today - n + i))) (py_range n)) \<inter> set (window_keys cs n today) = {}"
    using Cons.prems by (auto simp: set_window_keys)
  have "window_keys (c # cs) n today =
          map (\<lambda>i. (c, DateObj (today - n + i))) (py_range n) @ window_keys cs n today"
    by (simp add: window_keys_def)
  then show ?case
    using d1 d2 d3 by simp
qed

lemma valid_739000: "valid_date 739000"
  by (simp add: valid_date_def MAXORDINAL_def)

lemma distinct_cities: "distinct cities"
  by (simp add: cities_def)

lemma length_cities: "length cities = 6"
  by (simp add: cities_def)

lemma generate_for_frame:
  assumes "n < today" and "today \<le> MAXORDINAL"
  shows "map key_of (frame_of (generate_for cs n today g)) = window_keys cs n today"
proof -
  from generate_for_keys [OF assms, of cs g]
  obtain df g' where "generate_for cs n today g = Inr (df, g')"
    and "map key_of df = window_keys cs n today"
    by blast
  then show ?thesis by (simp add: frame_of_def)
qed

section \<open>The claims about the generator's rows\<close>

text \<open>
  C1. For every list of distinct cities and every window of \<open>n > 0\<close> days whose first
  day is a date, the generator returns exactly \<open>|cities| * n\<close> readings, one for each
  pair of a city and a day of the window; with the script's own six cities and thirty
  days that is 180 readings, no two with the same city and date.
\<close>

theorem C1_one_reading_per_city_and_day:
  assumes "valid_date today"
  shows "(distinct cs \<and> 0 < n \<and> n < today \<longrightarrow>
            (\<exists>df g'. generate_for cs n today g = Inr (df, g') \<and>
                length df = length cs * nat n \<and>
                distinct (map key_of df) \<and>
                set (map key_of df) = set cs \<times> DateObj ` {today - n..<today})) \<and>
         (30 < today \<longrightarrow>
            (\<exists>df g'. generate_weather_data today g = Inr (df, g') \<and>
                length df = 180 \<and> distinct (map key_of df)))"
proof (intro conjI impI)
  have le: "today \<le> MAXORDINAL"
    using assms by (simp add: valid_date_def)
  {
    assume a: "distinct cs \<and> 0 < n \<and> n < today"
    from generate_for_keys [OF _ le, of n cs g] a
    obtain df g' where r: "generate_for cs n today g = Inr (df, g')"
      and k: "map key_of df = window_keys cs n today"
      by blast
    have "length (map key_of df) = length cs * nat n"
      by (simp only: k length_window_keys)
    then have "length df = length cs * nat n" by simp
    moreover have "distinct (map key_of df)"
      using a by (simp only: k distinct_window_keys)
    moreover have "set (map key_of df) = set cs \<times> DateObj ` {today - n..<today}"
      by (simp only: k set_window_keys)
    ultimately show "\<exists>df g'. generate_for cs n today g = Inr (df, g') \<and>
        length df = length cs * nat n \<and> distinct (map key_of df) \<and>
        set (map key_of df) = set cs \<times> DateObj ` {today - n..<today}"
      using r by blast
  }
  {
    assume a: "30 < today"
    from generate_for_keys [OF a le, of cities g]
    obtain df g' where r: "generate_weather_data today g = Inr (df, g')"
      and k: "map key_of df = window_keys cities 30 today"
      by (auto simp: generate_weather_data_def)
    have "length (map key_of df) = 180"
      by (simp add: k length_window_keys length_cities)
    then have "length df = 180" by simp
    moreover have "distinct (map key_of df)"
      by (simp only: k distinct_window_keys [OF distinct_cities])
    ultimately show "\<exists>df g'. generate_weather_data today g = Inr (df, g') \<and>
        length df = 180 \<and> distinct (map key_of df)"
      using r by blast
  }
qed

theorem C1_witness:
  "(\<exists>df g'. generate_for [''A'', ''B''] 3 739000 (\<lambda>k. 0) = Inr (df, g') \<and>
       length df = length [''A'', ''B''] * nat 3 \<and>
       distinct (map key_of df) \<and>
       set (map key_of df) = set [''A'', ''B''] \<times> DateObj ` {739000 - 3..<739000}) \<and>
   (\<exists>df g'. generate_weather_data 739000 (\<lambda>k. 0) = Inr (df, g') \<and>
       length df = 180 \<and> distinct (map key_of df))"
proof -
  have h1: "distinct [''A'', ''B''] \<and> (0::int) < 3 \<and> (3::int) < 739000" by simp
  have h2: "(30::int) < 739000" by simp
  from C1_one_reading_per_city_and_day [OF valid_739000, of "[''A'', ''B'']" 3 "\<lambda>k. 0"] h1 h2
  show ?thesis by blast
qed

lemma date_of_key: "map date df = map snd (map key_of df)"
  by (simp add: key_of_def comp_def)

lemma filter_city_keys:
  "map date (filter (\<lambda>r. city r = c) df) = map snd (filter (\<lambda>k. fst k = c) (map key_of df))"
  by (simp add: filter_map comp_def key_of_def)

lemma filter_window_keys_other:
  "c \<notin> set cs \<Longrightarrow> filter (\<lambda>k. fst k = c) (window_keys cs n today) = []"
  by (auto simp: filter_empty_conv set_window_keys)

lemma filter_window_keys:
  assumes "distinct cs" and "c \<in> set cs"
  shows "filter (\<lambda>k. fst k = c) (window_keys cs n today) =
           map (\<lambda>i. (c, DateObj (today - n + i))) (py_range n)"
  using assms
proof (induction cs)
  case Nil
  then show ?case by simp
next
  case (Cons a cs)
  have split: "window_keys (a # cs) n today =
      map (\<lambda>i. (a, DateObj (today - n + i))) (py_range n) @ window_keys cs n today"
    by (simp add: window_keys_def)
  show ?case
  proof (cases "a = c")
    case True
    then have "c \<notin> set cs" using Cons.prems by simp
    then have "filter (\<lambda>k. fst k = c) (window_keys cs n today) = []"
      by (rule filter_window_keys_other)
    then show ?thesis
      unfolding split using True by (simp add: filter_map comp_def)
  next
    case False
    then have "c \<in> set cs" "distinct cs" using Cons.prems by auto
    then have "filter (\<lambda>k. fst k = c) (window_keys cs n today) =
        map (\<lambda>i. (c, DateObj (today - n + i))) (py_range n)"
      using Cons.IH by simp
    then show ?thesis
      unfolding split using False by (simp add: filter_map comp_def)
  qed
qed

lemma snd_window_keys:
  "cs \<noteq> [] \<Longrightarrow> snd ` set (window_keys cs n today) = DateObj ` {today - n..<today}"
  by (cases cs) (auto simp: set_window_keys)

lemma window_dates:
  assumes "today \<le> MAXORDINAL" and "0 < n" and "n < today" and "cs \<noteq> []"
  shows "\<exists>df g'. generate_for cs n today g = Inr (df, g') \<and>
           set (map date df) = DateObj ` {today - n..<today} \<and>
           DateObj (today - n) \<in> set (map date df) \<and>
           DateObj (today - 1) \<in> set (map date df) \<and>
           DateObj today \<notin> set (map date df) \<and>
           (distinct cs \<longrightarrow> (\<forall>c \<in> set cs. map date (filter (\<lambda>r. city r = c) df) =
               map (\<lambda>i. DateObj (today - n + i)) (py_range n)))"
proof -
  from generate_for_keys [OF assms(3,1), of cs g]
  obtain df g' where r: "generate_for cs n today g = Inr (df, g')"
    and k: "map key_of df = window_keys cs n today"
    by blast
  have s: "set (map date df) = DateObj ` {today - n..<today}"
    using snd_window_keys [OF assms(4), of n today]
    by (simp only: date_of_key k set_map)
  have "today - n \<in> {today - n..<today}" "today - 1 \<in> {today - n..<today}"
    using assms(2) by auto
  then have m: "DateObj (today - n) \<in> set (map date df)" "DateObj (today - 1) \<in> set (map date df)"
    unfolding s by blast+
  have nm: "DateObj today \<notin> set (map date df)"
    unfolding s by auto
  have pc: "map date (filter (\<lambda>r. city r = c) df) =
      map (\<lambda>i. DateObj (today - n + i)) (py_range n)" if "distinct cs" "c \<in> set cs" for c
    by (simp add: filter_city_keys k filter_window_keys [OF that] comp_def)
  show ?thesis
    using r s m nm pc by blast
qed

lemma generate_for_dates:
  assumes "n < today" and "today \<le> MAXORDINAL"
  shows "map date (frame_of (generate_for cs n today g)) = map snd (window_keys cs n today)"
  by (simp only: date_of_key generate_for_frame [OF assms])

text \<open>
  C2, as the code has it. The dates are the \<open>n\<close> days before today: the window is
  \<open>[today - n, today - 1]\<close>, so \<open>today - n\<close> is among the dates and today is not. Within
  each city the dates are the \<open>n\<close> consecutive days, once each, in ascending order.
\<close>

theorem C2_dates_are_the_days_before_today:
  assumes "valid_date today"
  shows "(0 < n \<and> n < today \<and> distinct cs \<and> cs \<noteq> [] \<longrightarrow>
            (\<exists>df g'. generate_for cs n today g = Inr (df, g') \<and>
               set (map date df) = DateObj ` {today - n..<today} \<and>
               DateObj (today - n) \<in> set (map date df) \<and>
               DateObj (today - 1) \<in> set (map date df) \<and>
               DateObj today \<notin> set (map date df) \<and>
               (\<forall>c \<in> set cs. map date (filter (\<lambda>r. city r = c) df) =
                   map (\<lambda>i. DateObj (today - n + i)) (py_range n)))) \<and>
         (30 < today \<longrightarrow>
            (\<exists>df g'. generate_weather_data today g = Inr (df, g') \<and>
               set (map date df) = DateObj ` {today - 30..<today} \<and>
               DateObj (today - 30) \<in> set (map date df) \<and>
               DateObj (today - 1) \<in> set (map date df) \<and>
               DateObj today \<notin> set (map date df) \<and>
               (\<forall>c \<in> set cities. map date (filter (\<lambda>r. city r = c) df) =
                   map (\<lambda>i. DateObj (today - 30 + i)) (py_range 30))))"
proof (intro conjI impI)
  have le: "today \<le> MAXORDINAL"
    using assms by (simp add: valid_date_def)
  {
    assume a: "0 < n \<and> n < today \<and> distinct cs \<and> cs \<noteq> []"
    then have "0 < n" "n < today" "cs \<noteq> []" "distinct cs" by simp_all
    from window_dates [OF le this(1,2,3), of g] this(4)
    show "\<exists>df g'. generate_for cs n today g = Inr (df, g') \<and>
               set (map date df) = DateObj ` {today - n..<today} \<and>
               DateObj (today - n) \<in> set (map date df) \<and>
               DateObj (today - 1) \<in> set (map date df) \<and>
               DateObj today \<notin> set (map date df) \<and>
               (\<forall>c \<in> set cs. map date (filter (\<lambda>r. city r = c) df) =
                   map (\<lambda>i. DateObj (today - n + i)) (py_range n))"
      by blast
  }
  {
    assume a: "30 < today"
    have ne: "cities \<noteq> []" by (simp add: cities_def)
    have "(0::int) < 30" by simp
    from window_dates [OF le this a ne, of g] distinct_cities
    show "\<exists>df g'. generate_weather_data today g = Inr (df, g') \<and>
               set (map date df) = DateObj ` {today - 30..<today} \<and>
               DateObj (today - 30) \<in> set (map date df) \<and>
               DateObj (today - 1) \<in> set (map date df) \<and>
               DateObj today \<notin> set (map date df) \<and>
               (\<forall>c \<in> set cities. map date (filter (\<lambda>r. city r = c) df) =
                   map (\<lambda>i. DateObj (today - 30 + i)) (py_range 30))"
      unfolding generate_weather_data_def by blast
  }
qed

theorem C2_witness:
  "\<exists>df g'. generate_weather_data 739000 (\<lambda>k. 0) = Inr (df, g') \<and>
      set (map date df) = DateObj ` {739000 - 30..<739000} \<and>
      DateObj (739000 - 30) \<in> set (map date df) \<and>
      DateObj (739000 - 1) \<in> set (map date df) \<and>
      DateObj 739000 \<notin> set (map date df) \<and>
      map date (filter (\<lambda>r. city r = ''Tokyo'') df) =
        map (\<lambda>i. DateObj (739000 - 30 + i)) (py_range 30)"
proof -
  have h: "(30::int) < 739000" by simp
  have t: "''Tokyo'' \<in> set cities" by (simp add: cities_def)
  from C2_dates_are_the_days_before_today [OF valid_739000, of 30 cities "\<lambda>k. 0"] h t
  show ?thesis by blast
qed

text \<open>
  The claim as written puts today among the dates and \<open>today - N\<close> outside them. With
  today at day 739000, a two-day window for one city holds days 738998 and 738999, and
  the script's thirty-day window holds day 738970 and not day 739000.
\<close>

theorem C2_counterexample:
  "map date (frame_of (generate_for [''London''] 2 739000 (\<lambda>k. 0))) =
     [DateObj 738998, DateObj 738999] \<and>
   DateObj 739000 \<notin> set (map date (frame_of (generate_weather_data 739000 (\<lambda>k. 0)))) \<and>
   DateObj 738970 \<in> set (map date (frame_of (generate_weather_data 739000 (\<lambda>k. 0))))"
proof -
  have le: "(739000::int) \<le> MAXORDINAL" by (simp add: MAXORDINAL_def)
  have "map date (frame_of (generate_for [''London''] 2 739000 (\<lambda>k. 0))) =
      map snd (window_keys [''London''] 2 739000)"
    by (rule generate_for_dates [OF _ le]) simp
  also have "\<dots> = [DateObj 738998, DateObj 738999]"
    by (simp add: window_keys_def py_range_def upt_rec)
  finally have a: "map date (frame_of (generate_for [''London''] 2 739000 (\<lambda>k. 0))) =
      [DateObj 738998, DateObj 738999]" .
  have ne: "cities \<noteq> []" by (simp add: cities_def)
  have "set (map date (frame_of (generate_weather_data 739000 (\<lambda>k. 0)))) =
      snd ` set (window_keys cities 30 739000)"
    unfolding generate_weather_data_def
    by (subst generate_for_dates [OF _ le]) simp_all
  also have "\<dots> = DateObj ` {739000 - 30..<739000}"
    by (rule snd_window_keys [OF ne])
  finally have s: "set (map date (frame_of (generate_weather_data 739000 (\<lambda>k. 0)))) =
      DateObj ` {739000 - 30..<739000}" .
  have b: "DateObj 739000 \<notin> set (map date (frame_of (generate_weather_data 739000 (\<lambda>k. 0))))"
    unfolding s by auto
  have "(738970::int) \<in> {739000 - 30..<739000}" by simp
  then have c: "DateObj 738970 \<in> set (map date (frame_of (generate_weather_data 739000 (\<lambda>k. 0))))"
    unfolding s by (rule imageI)
  from a b c show ?thesis by blast
qed

section \<open>Parameters are never rejected\<close>

text \<open>
  C9, as the code has it. The generator validates nothing and has no error of its own
  for a bad parameter. With no city, or with a window of zero or fewer days, the loops
  do not run and the result is the empty frame. With at least one city and \<open>n > 0\<close> days
  it returns its \<open>|cities| * n\<close> rows exactly when \<open>today - n\<close> is a date; otherwise the
  first subtraction raises \<^verbatim>\<open>OverflowError\<close>. The script's own call, six cities and
  thirty days, returns whenever today is later than day 30.
\<close>

theorem C9_generate_validates_nothing:
  assumes "valid_date today"
  shows "(cs = [] \<or> n \<le> 0 \<longrightarrow> generate_for cs n today g = Inr ([], g)) \<and>
         (cs \<noteq> [] \<and> 0 < n \<and> n < today \<longrightarrow>
            (\<exists>df g'. generate_for cs n today g = Inr (df, g') \<and> length df = length cs * nat n)) \<and>
         (cs \<noteq> [] \<and> 0 < n \<and> today \<le> n \<longrightarrow>
            generate_for cs n today g = Inl OverflowError) \<and>
         (30 < today \<longrightarrow> (\<exists>df g'. generate_weather_data today g = Inr (df, g')))"
proof (intro conjI impI)
  have le: "today \<le> MAXORDINAL"
    using assms by (simp add: valid_date_def)
  {
    assume "cs = [] \<or> n \<le> 0"
    then show "generate_for cs n today g = Inr ([], g)"
      using generate_for_no_city [of n today g] generate_for_nonpos [of n cs today g] by blast
  }
  {
    assume a: "cs \<noteq> [] \<and> 0 < n \<and> n < today"
    from generate_for_keys [OF _ le, of n cs g] a
    obtain df g' where r: "generate_for cs n today g = Inr (df, g')"
      and k: "map key_of df = window_keys cs n today"
      by blast
    have "length (map key_of df) = length cs * nat n"
      by (simp only: k length_window_keys)
    then have "length df = length cs * nat n" by simp
    then show "\<exists>df g'. generate_for cs n today g = Inr (df, g') \<and> length df = length cs * nat n"
      using r by blast
  }
  {
    assume "cs \<noteq> [] \<and> 0 < n \<and> today \<le> n"
    then show "generate_for cs n today g = Inl OverflowError"
      using generate_for_overflow [of cs n today g] by blast
  }
  {
    assume a: "30 < today"
    from generate_for_keys [OF a le, of cities g]
    show "\<exists>df g'. generate_weather_data today g = Inr (df, g')"
      unfolding generate_weather_data_def by blast
  }
qed

theorem C9_witness:
  "generate_for [] 30 739000 (\<lambda>k. 0) = Inr ([], \<lambda>k. 0) \<and>
   generate_for [''A''] (- 1) 739000 (\<lambda>k. 0) = Inr ([], \<lambda>k. 0) \<and>
   (\<exists>df g'. generate_for [''A''] 3 739000 (\<lambda>k. 0) = Inr (df, g') \<and>
       length df = length [''A''] * nat 3) \<and>
   generate_for [''A''] 5 5 (\<lambda>k. 0) = Inl OverflowError \<and>
   (\<exists>df g'. generate_weather_data 739000 (\<lambda>k. 0) = Inr (df, g'))"
proof -
  have v5: "valid_date 5"
    by (simp add: valid_date_def MAXORDINAL_def)
  have h1: "([]::string list) = [] \<or> (30::int) \<le> 0" by simp
  have h2: "[''A''] = [] \<or> (- 1::int) \<le> 0" by simp
  have h3: "[''A''] \<noteq> [] \<and> (0::int) < 3 \<and> (3::int) < 739000" by simp
  have h4: "[''A''] \<noteq> [] \<and> (0::int) < 5 \<and> (5::int) \<le> 5" by simp
  have h5: "(30::int) < 739000" by simp
  from C9_generate_validates_nothing [OF valid_739000, of "[]" 30 "\<lambda>k. 0"] h1
  have a: "generate_for [] 30 739000 (\<lambda>k. 0) = Inr ([], \<lambda>k. 0)" by blast
  from C9_generate_validates_nothing [OF valid_739000, of "[''A'']" "- 1" "\<lambda>k. 0"] h2
  have b: "generate_for [''A''] (- 1) 739000 (\<lambda>k. 0) = Inr ([], \<lambda>k. 0)" by blast
  from C9_generate_validates_nothing [OF valid_739000, of "[''A'']" 3 "\<lambda>k. 0"] h3 h5
  have c: "(\<exists>df g'. generate_for [''A''] 3 739000 (\<lambda>k. 0) = Inr (df, g') \<and>
       length df = length [''A''] * nat 3) \<and>
     (\<exists>df g'. generate_weather_data 739000 (\<lambda>k. 0) = Inr (df, g'))" by blast
  from C9_generate_validates_nothing [OF v5, of "[''A'']" 5 "\<lambda>k. 0"] h4
  have d: "generate_for [''A''] 5 5 (\<lambda>k. 0) = Inl OverflowError" by blast
  from a b c d show ?thesis by blast
qed

text \<open>
  The claim as written wants a failure for an empty city list and for a window of zero
  days. The loops return the empty frame for both.
\<close>

theorem C9_counterexample:
  "generate_for [] 30 739000 (\<lambda>k. 0) = Inr ([], \<lambda>k. 0) \<and>
   generate_for cities 0 739000 (\<lambda>k. 0) = Inr ([], \<lambda>k. 0)"
  by (simp add: generate_for_no_city generate_for_nonpos)

section \<open>The transfers to and from HDFS\<close>

text \<open>
  C4, as the code has it. Each transfer runs its command,
  \<^verbatim>\<open>hadoop fs -put -f <local> <remote>\<close> or \<^verbatim>\<open>hadoop fs -get -f <remote> <local>\<close>,
  through \<^verbatim>\<open>os.system\<close> and drops the status: whatever the status says (a failed
  transfer, a missing local file, no \<^verbatim>\<open>hadoop\<close> on the path), the function returns
  normally, with the world as the command left it. No error is made from the status.
\<close>

theorem C4_transfers_ignore_the_exit_status:
  assumes "CHR 0x00 \<notin> set local_path" and "CHR 0x00 \<notin> set hdfs_path"
  shows "save_results_to_hdfs sh local_path hdfs_path w =
           Inr ((), snd (sh (''hadoop fs -put -f '' @ local_path @ '' '' @ hdfs_path) w)) \<and>
         get_results_from_hdfs sh hdfs_path local_path w =
           Inr ((), snd (sh (''hadoop fs -get -f '' @ hdfs_path @ '' '' @ local_path) w))"
proof
  show "save_results_to_hdfs sh local_path hdfs_path w =
           Inr ((), snd (sh (''hadoop fs -put -f '' @ local_path @ '' '' @ hdfs_path) w))"
    using assms by (simp add: save_results_to_hdfs_def os_system_def split: prod.splits)
  show "get_results_from_hdfs sh hdfs_path local_path w =
           Inr ((), snd (sh (''hadoop fs -get -f '' @ hdfs_path @ '' '' @ local_path) w))"
    using assms by (simp add: get_results_from_hdfs_def os_system_def split: prod.splits)
qed

theorem C4_witness:
  "save_results_to_hdfs (\<lambda>cmd w. (256, cmd # w)) ''weather_data.csv'' ''/user/u/weather_data.csv'' [] =
     Inr ((), [''hadoop fs -put -f weather_data.csv /user/u/weather_data.csv'']) \<and>
   get_results_from_hdfs (\<lambda>cmd w. (256, cmd # w)) ''/user/u/weather_data.csv'' ''weather_data.csv'' [] =
     Inr ((), [''hadoop fs -get -f /user/u/weather_data.csv weather_data.csv''])"
proof -
  have a: "CHR 0x00 \<notin> set ''weather_data.csv''" by simp
  have b: "CHR 0x00 \<notin> set ''/user/u/weather_data.csv''" by simp
  from C4_transfers_ignore_the_exit_status [OF a b, of "\<lambda>cmd w. (256, cmd # w)" "[]"]
  show ?thesis by simp
qed

text \<open>
  The claim as written wants an error whenever the command exits with a non-zero status.
  Here every command fails with wait status 256 (exit code 1), as \<^verbatim>\<open>hadoop fs -put\<close>
  does for a local file that does not exist, and with 32512 (exit code 127), as the shell
  does when there is no \<^verbatim>\<open>hadoop\<close>; both transfers return normally.
\<close>

theorem C4_counterexample:
  "save_results_to_hdfs (\<lambda>cmd w. (256, w)) ''no_such_file.csv'' ''/user/u/no_such_file.csv'' () =
     Inr ((), ()) \<and>
   get_results_from_hdfs (\<lambda>cmd w. (32512, w)) ''/user/u/weather_data.csv'' ''weather_data.csv'' () =
     Inr ((), ())"
  by (simp add: save_results_to_hdfs_def get_results_from_hdfs_def os_system_def)

section \<open>Rounding and the range of \<^verbatim>\<open>random.uniform\<close>\<close>

lemma rhe_cases: "rhe x = \<lfloor>x\<rfloor> \<or> (rhe x = \<lfloor>x\<rfloor> + 1 \<and> 1 / 2 \<le> x - of_int \<lfloor>x\<rfloor>)"
  by (auto simp: rhe_def Let_def)

lemma rhe_le: assumes "x \<le> of_int z" shows "rhe x \<le> z"
proof -
  have f: "\<lfloor>x\<rfloor> \<le> z" using assms by (simp add: floor_le_iff)
  from rhe_cases [of x] show ?thesis
  proof
    assume "rhe x = \<lfloor>x\<rfloor>"
    then show ?thesis using f by simp
  next
    assume a: "rhe x = \<lfloor>x\<rfloor> + 1 \<and> 1 / 2 \<le> x - of_int \<lfloor>x\<rfloor>"
    have "\<lfloor>x\<rfloor> \<noteq> z"
    proof
      assume "\<lfloor>x\<rfloor> = z"
      then have "x - of_int \<lfloor>x\<rfloor> \<le> 0" using assms by simp
      then show False using a by simp
    qed
    then show ?thesis using f a by simp
  qed
qed

lemma rhe_ge: assumes "of_int z \<le> x" shows "z \<le> rhe x"
proof -
  have "z \<le> \<lfloor>x\<rfloor>" using assms by (simp add: le_floor_iff)
  then show ?thesis using rhe_cases [of x] by auto
qed

lemma bits_bounds: "0 < n \<Longrightarrow> 2 ^ (bits n - 1) \<le> n \<and> n < 2 ^ bits n"
proof (induction n rule: bits.induct)
  case (1 n)
  show ?case
  proof (cases "n div 2 = 0")
    case True
    then have "n = 1" using 1(2) by presburger
    then show ?thesis by (simp add: bits.simps)
  next
    case False
    then have ih: "2 ^ (bits (n div 2) - 1) \<le> n div 2 \<and> n div 2 < 2 ^ bits (n div 2)"
      using 1 by simp
    have pos: "0 < bits (n div 2)" using False by (simp add: bits.simps)
    have b: "bits n = Suc (bits (n div 2))" using 1(2) by (subst bits.simps) simp
    have "2 ^ (bits n - 1) = 2 * 2 ^ (bits (n div 2) - 1)"
      using pos by (simp add: b power_Suc [symmetric] del: power_Suc)
    also have "\<dots> \<le> 2 * (n div 2)" using ih by simp
    also have "\<dots> \<le> n" by simp
    finally have lo: "2 ^ (bits n - 1) \<le> n" .
    have "n < 2 * (n div 2) + 2" by presburger
    also have "\<dots> \<le> 2 * 2 ^ bits (n div 2)" using ih by simp
    finally have hi: "n < 2 ^ bits n" by (simp add: b)
    from lo hi show ?thesis by simp
  qed
qed


lemma ilog2_le:
  assumes "0 < x"
  shows "2 powi (ilog2 x) \<le> x"
proof -
  obtain p q where pq: "quotient_of x = (p, q)"
    by (cases "quotient_of x")
  have q: "0 < q" using quotient_of_denom_pos [OF pq] .
  have x: "x = of_int p / of_int q" using quotient_of_div [OF pq] .
  have p: "0 < p" using assms q x by (simp add: zero_less_divide_iff)
  define bp where "bp = bits (nat p)"
  define bq where "bq = bits (nat q)"
  show ?thesis
  proof (cases "(2::rat) powi (int bp - int bq) \<le> x")
    case True
    then show ?thesis by (simp add: ilog2_def pq bp_def bq_def)
  next
    case False
    then have e: "ilog2 x = int bp - int bq - 1"
      by (simp add: ilog2_def pq bp_def bq_def)
    have "2 ^ (bp - 1) \<le> nat p" using bits_bounds [of "nat p"] p by (simp add: bp_def)
    then have "int (2 ^ (bp - 1)) \<le> int (nat p)" by (simp only: of_nat_le_iff)
    then have lo: "(2::rat) ^ (bp - 1) \<le> of_int p" 
      using p by (metis of_int_le_iff of_int_of_nat_eq of_nat_numeral of_nat_power int_nat_eq less_le)
    have "nat q < 2 ^ bq" using bits_bounds [of "nat q"] q by (simp add: bq_def)
    then have "int (nat q) < int (2 ^ bq)" by (simp only: of_nat_less_iff)
    then have hi: "of_int q < (2::rat) ^ bq"
      using q by (metis of_int_less_iff of_int_of_nat_eq of_nat_numeral of_nat_power int_nat_eq less_le)
    have bp1: "1 \<le> bp" using p by (simp add: bp_def bits.simps)
    have "(2::rat) powi (int bp - int bq - 1) = 2 powi (int (bp - 1) - int bq)"
      using bp1 by (simp add: of_nat_diff algebra_simps)
    also have "\<dots> = 2 ^ (bp - 1) / 2 ^ bq"
      by (simp add: power_int_diff)
    also have "\<dots> \<le> of_int p / 2 ^ bq"
      using lo by (simp add: divide_right_mono)
    also have "\<dots> \<le> of_int p / of_int q"
      using hi p q by (simp add: frac_le)
    finally have "(2::rat) powi (int bp - int bq - 1) \<le> x" by (simp only: x)
    then show ?thesis by (simp only: e)
  qed
qed

lemma ilog2_small:
  assumes "0 < x" and "x < 2 ^ 53"
  shows "ilog2 x \<le> 52"
proof (rule ccontr)
  assume "\<not> ilog2 x \<le> 52"
  then have "53 \<le> ilog2 x" by simp
  then have "(2::rat) powi 53 \<le> 2 powi (ilog2 x)"
    by (rule power_int_increasing) simp
  also have "\<dots> \<le> x" using assms(1) by (rule ilog2_le)
  finally show False using assms(2) by simp
qed


lemma fl_unit:
  assumes "x \<noteq> 0" and "\<bar>x\<bar> < 2 ^ 53"
  obtains k :: nat where "fl x = of_int (rhe (x * 2 ^ k)) / 2 ^ k"
proof -
  have e: "ilog2 \<bar>x\<bar> \<le> 52"
    using assms by (intro ilog2_small) simp_all
  define k where "k = nat (52 - ilog2 \<bar>x\<bar>)"
  have "ilog2 \<bar>x\<bar> - 52 = - int k"
    using e by (simp add: k_def)
  then have u: "(2::rat) powi (ilog2 \<bar>x\<bar> - 52) = inverse (2 ^ k)"
    by (simp add: power_int_minus)
  have "fl x = of_int (rhe (x * 2 ^ k)) / 2 ^ k"
    using assms(1) by (simp add: fl_def Let_def u divide_inverse)
  then show ?thesis by (rule that)
qed

lemma fl_le:
  assumes "x \<le> of_int b" and "\<bar>x\<bar> < 2 ^ 53"
  shows "fl x \<le> of_int b"
proof (cases "x = 0")
  case True
  then show ?thesis using assms(1) by (simp add: fl_def)
next
  case False
  then obtain k :: nat where f: "fl x = of_int (rhe (x * 2 ^ k)) / 2 ^ k"
    using assms(2) by (rule fl_unit)
  have "x * 2 ^ k \<le> of_int b * 2 ^ k"
    using assms(1) by (simp add: mult_right_mono)
  then have "x * 2 ^ k \<le> of_int (b * 2 ^ k)" by simp
  then have "rhe (x * 2 ^ k) \<le> b * 2 ^ k" by (rule rhe_le)
  then have "(of_int (rhe (x * 2 ^ k)) :: rat) \<le> of_int (b * 2 ^ k)"
    by (simp only: of_int_le_iff)
  then have "(of_int (rhe (x * 2 ^ k)) :: rat) \<le> of_int b * 2 ^ k" by simp
  then show ?thesis by (simp add: f pos_divide_le_eq)
qed

lemma fl_ge:
  assumes "of_int b \<le> x" and "\<bar>x\<bar> < 2 ^ 53"
  shows "of_int b \<le> fl x"
proof (cases "x = 0")
  case True
  then show ?thesis using assms(1) by (simp add: fl_def)
next
  case False
  then obtain k :: nat where f: "fl x = of_int (rhe (x * 2 ^ k)) / 2 ^ k"
    using assms(2) by (rule fl_unit)
  have "of_int b * 2 ^ k \<le> x * 2 ^ k"
    using assms(1) by (simp add: mult_right_mono)
  then have "of_int (b * 2 ^ k) \<le> x * 2 ^ k" by simp
  then have "b * 2 ^ k \<le> rhe (x * 2 ^ k)" by (rule rhe_ge)
  then have "(of_int (b * 2 ^ k) :: rat) \<le> of_int (rhe (x * 2 ^ k))"
    by (simp only: of_int_le_iff)
  then have "(of_int b :: rat) * 2 ^ k \<le> of_int (rhe (x * 2 ^ k))" by simp
  then show ?thesis by (simp add: f pos_le_divide_eq)
qed

lemma random_random_range:
  "0 \<le> fst (random_random g) \<and> fst (random_random g) < 1"
proof -
  have "unat (g 0) < 2 ^ 53"
    using unsigned_less [of "g 0"] by simp
  then have "(of_nat (unat (g 0)) :: rat) < of_nat (2 ^ 53)"
    by (simp only: of_nat_less_iff)
  moreover have "(0::rat) \<le> of_nat (unat (g 0))"
    by (rule of_nat_0_le_iff)
  ultimately show ?thesis
    by (simp add: random_random_def)
qed

lemma uniform_range:
  assumes "a \<le> b" and "\<bar>a\<bar> < 2 ^ 51" and "\<bar>b\<bar> < 2 ^ 51"
  shows "of_int a \<le> fst (uniform a b g) \<and> fst (uniform a b g) \<le> of_int b"
proof -
  obtain r g1 where rr: "random_random g = (r, g1)"
    by (cases "random_random g")
  have r: "0 \<le> r" "r < 1"
    using random_random_range [of g] by (simp_all add: rr)
  define y where "y = fl (of_int (b - a) * r)"
  have w: "(0::rat) \<le> of_int (b - a)" using assms(1) by simp
  have p0: "of_int 0 \<le> of_int (b - a) * r"
    using w r by simp
  have "of_int (b - a) * r \<le> of_int (b - a) * 1"
    using w r by (intro mult_left_mono) simp_all
  then have p1: "of_int (b - a) * r \<le> of_int (b - a)" by simp
  have "b - a < 2 ^ 52" using assms by simp
  then have "(of_int (b - a) :: rat) < of_int (2 ^ 52)" by (simp only: of_int_less_iff)
  then have small: "\<bar>of_int (b - a) * r\<bar> < 2 ^ 53"
    using p0 p1 by simp
  have y0: "0 \<le> y"
    using fl_ge [OF p0 small] by (simp add: y_def)
  have y1: "y \<le> of_int (b - a)"
    using fl_le [OF p1 small] by (simp add: y_def)
  have s0: "of_int a \<le> of_int a + y" using y0 by simp
  have s1: "of_int a + y \<le> of_int b" using y1 by simp
  have "(of_int \<bar>a\<bar> :: rat) < of_int (2 ^ 51)" "(of_int \<bar>b\<bar> :: rat) < of_int (2 ^ 51)"
    using assms(2,3) by (simp_all only: of_int_less_iff)
  then have "\<bar>of_int a :: rat\<bar> < 2 ^ 51" "\<bar>of_int b :: rat\<bar> < 2 ^ 51" by simp_all
  then have small2: "\<bar>of_int a + y\<bar> < 2 ^ 53"
    using s0 s1 by (simp add: abs_less_iff)
  have "fst (uniform a b g) = fl (of_int a + y)"
    by (simp add: uniform_def rr y_def)
  then show ?thesis
    using fl_ge [OF s0 small2] fl_le [OF s1 small2] by simp
qed


lemma py_round1_range:
  assumes "of_int a \<le> x" and "x \<le> of_int b" and "a \<le> 0" and "0 \<le> b"
  shows "of_int a \<le> dec_value (py_round1 x) \<and> dec_value (py_round1 x) \<le> of_int b"
proof (cases "x < 0")
  case True
  define m where "m = rhe (\<bar>x\<bar> * 10)"
  have "of_int 0 \<le> \<bar>x\<bar> * 10" by simp
  then have m0: "0 \<le> m" unfolding m_def by (rule rhe_ge)
  have "\<bar>x\<bar> * 10 \<le> of_int (- a * 10)"
    using True assms(1) by simp
  then have m1: "m \<le> - a * 10" unfolding m_def by (rule rhe_le)
  have v: "dec_value (py_round1 x) = - (of_int m / 10)"
    using True m0 by (simp add: dec_value_def py_round1_def m_def)
  have "(of_int m :: rat) \<le> of_int (- a * 10)" using m1 by (simp only: of_int_le_iff)
  then have lo: "of_int a \<le> - (of_int m / 10 :: rat)" by simp
  have "(of_int 0 :: rat) \<le> of_int m" using m0 by (simp only: of_int_le_iff)
  moreover have "(of_int 0 :: rat) \<le> of_int b" using assms(4) by (simp only: of_int_le_iff)
  ultimately have hi: "- (of_int m / 10 :: rat) \<le> of_int b" by simp
  from lo hi show ?thesis by (simp only: v)
next
  case False
  define m where "m = rhe (\<bar>x\<bar> * 10)"
  have "of_int 0 \<le> \<bar>x\<bar> * 10" by simp
  then have m0: "0 \<le> m" unfolding m_def by (rule rhe_ge)
  have "\<bar>x\<bar> * 10 \<le> of_int (b * 10)"
    using False assms(2) by simp
  then have m1: "m \<le> b * 10" unfolding m_def by (rule rhe_le)
  have v: "dec_value (py_round1 x) = of_int m / 10"
    using False m0 by (simp add: dec_value_def py_round1_def m_def)
  have "(of_int m :: rat) \<le> of_int (b * 10)" using m1 by (simp only: of_int_le_iff)
  then have hi: "(of_int m / 10 :: rat) \<le> of_int b" by simp
  have "(of_int 0 :: rat) \<le> of_int m" using m0 by (simp only: of_int_le_iff)
  moreover have "(of_int a :: rat) \<le> of_int 0" using assms(3) by (simp only: of_int_le_iff)
  ultimately have lo: "of_int a \<le> (of_int m / 10 :: rat)" by simp
  from lo hi show ?thesis by (simp only: v)
qed


lemma uniform_5_35: "- 5 \<le> fst (uniform (- 5) 35 g) \<and> fst (uniform (- 5) 35 g) \<le> 35"
  using uniform_range [of "- 5" 35 g] by simp

lemma day_loop_drawn:
  assumes "day_loop n today c is (data, g) = Inr (data', g')" and "\<forall>r \<in> set data. drawn r"
  shows "\<forall>r \<in> set data'. drawn r"
  using assms
proof (induction "is" arbitrary: data g)
  case Nil
  then show ?case by simp
next
  case (Cons i "is")
  obtain temp g1 where u: "uniform (- 5) 35 g = (temp, g1)"
    by (cases "uniform (- 5) 35 g")
  have t: "- 5 \<le> temp \<and> temp \<le> 35"
    using uniform_5_35 [of g] by (simp add: u)
  from Cons.prems(1) obtain d where
    next_call: "day_loop n today c is
        (data @ [\<lparr>date = DateObj d, city = c, temperature = py_round1 temp\<rparr>], g1) = Inr (data', g')"
    by (auto simp: u split: sum.splits)
  have "drawn \<lparr>date = DateObj d, city = c, temperature = py_round1 temp\<rparr>"
    unfolding drawn_def using t by auto
  then have "\<forall>r \<in> set (data @ [\<lparr>date = DateObj d, city = c, temperature = py_round1 temp\<rparr>]). drawn r"
    using Cons.prems(2) by simp
  with next_call show ?case by (rule Cons.IH)
qed

lemma city_loop_drawn:
  assumes "city_loop n today cs (data, g) = Inr (data', g')" and "\<forall>r \<in> set data. drawn r"
  shows "\<forall>r \<in> set data'. drawn r"
  using assms
proof (induction cs arbitrary: data g)
  case Nil
  then show ?case by simp
next
  case (Cons c cs)
  from Cons.prems(1) obtain data1 g1 where
    d: "day_loop n today c (py_range n) (data, g) = Inr (data1, g1)" and
    rest: "city_loop n today cs (data1, g1) = Inr (data', g')"
    by (auto split: sum.splits)
  from d Cons.prems(2) have "\<forall>r \<in> set data1. drawn r" by (rule day_loop_drawn)
  with rest show ?case by (rule Cons.IH)
qed

lemma generate_for_drawn:
  assumes "generate_for cs n today g = Inr (df, g')"
  shows "\<forall>r \<in> set df. drawn r"
proof -
  have "\<forall>r \<in> set ([]::reading list). drawn r" by simp
  with assms [unfolded generate_for_def] show ?thesis by (rule city_loop_drawn)
qed

lemma drawn_range:
  assumes "drawn r"
  shows "- 5 \<le> dec_value (temperature r) \<and> dec_value (temperature r) \<le> 35"
proof -
  from assms obtain x where x: "- 5 \<le> x" "x \<le> 35" "temperature r = py_round1 x"
    unfolding drawn_def by blast
  have "of_int (- 5) \<le> x" "x \<le> of_int 35" using x by simp_all
  from py_round1_range [OF this] show ?thesis by (simp add: x(3))
qed

lemma dec_value_tenths: "\<exists>m::int. dec_value t = of_int m / 10"
proof (cases "negative t")
  case True
  then have "dec_value t = of_int (- int (tenths t)) / 10" by (simp add: dec_value_def)
  then show ?thesis by blast
next
  case False
  then have "dec_value t = of_int (int (tenths t)) / 10" by (simp add: dec_value_def)
  then show ?thesis by blast
qed

text \<open>
  C3. Every reading the generator produces has a temperature between -5.0 and 35.0 that
  is \<^verbatim>\<open>round(x, 1)\<close> of the double \<open>x\<close> drawn for it, itself between -5 and 35: a
  whole number of tenths. The script's own call returns such a frame whenever today is
  later than day 30.
\<close>

theorem C3_temperatures_in_range_and_rounded:
  assumes "valid_date today" and "30 < today"
  shows "(\<forall>df g'. generate_for cs n today g = Inr (df, g') \<longrightarrow>
            (\<forall>r \<in> set df.
                - 5 \<le> dec_value (temperature r) \<and> dec_value (temperature r) \<le> 35 \<and>
                (\<exists>x. - 5 \<le> x \<and> x \<le> 35 \<and> temperature r = py_round1 x) \<and>
                (\<exists>m::int. dec_value (temperature r) = of_int m / 10))) \<and>
         (\<exists>df g'. generate_weather_data today g = Inr (df, g') \<and>
            (\<forall>r \<in> set df.
                - 5 \<le> dec_value (temperature r) \<and> dec_value (temperature r) \<le> 35 \<and>
                (\<exists>x. - 5 \<le> x \<and> x \<le> 35 \<and> temperature r = py_round1 x) \<and>
                (\<exists>m::int. dec_value (temperature r) = of_int m / 10)))"
proof -
  have all: "\<forall>r \<in> set df.
                - 5 \<le> dec_value (temperature r) \<and> dec_value (temperature r) \<le> 35 \<and>
                (\<exists>x. - 5 \<le> x \<and> x \<le> 35 \<and> temperature r = py_round1 x) \<and>
                (\<exists>m::int. dec_value (temperature r) = of_int m / 10)"
    if "generate_for cs' n' today g = Inr (df, g')" for cs' n' df g'
  proof
    fix r assume "r \<in> set df"
    then have d: "drawn r" using generate_for_drawn [OF that] by blast
    from drawn_range [OF d] d dec_value_tenths [of "temperature r"]
    show "- 5 \<le> dec_value (temperature r) \<and> dec_value (temperature r) \<le> 35 \<and>
                (\<exists>x. - 5 \<le> x \<and> x \<le> 35 \<and> temperature r = py_round1 x) \<and>
                (\<exists>m::int. dec_value (temperature r) = of_int m / 10)"
      unfolding drawn_def by blast
  qed
  have le: "today \<le> MAXORDINAL"
    using assms(1) by (simp add: valid_date_def)
  from generate_for_keys [OF assms(2) le, of cities g]
  obtain df g' where r: "generate_for cities 30 today g = Inr (df, g')"
    by blast
  from all [OF r] r have
    "\<exists>df g'. generate_weather_data today g = Inr (df, g') \<and>
            (\<forall>r \<in> set df.
                - 5 \<le> dec_value (temperature r) \<and> dec_value (temperature r) \<le> 35 \<and>
                (\<exists>x. - 5 \<le> x \<and> x \<le> 35 \<and> temperature r = py_round1 x) \<and>
                (\<exists>m::int. dec_value (temperature r) = of_int m / 10))"
    unfolding generate_weather_data_def by blast
  with all show ?thesis by blast
qed

theorem C3_witness:
  "\<exists>df g'. generate_weather_data 739000 (\<lambda>k. 0) = Inr (df, g') \<and>
      (\<forall>r \<in> set df.
          - 5 \<le> dec_value (temperature r) \<and> dec_value (temperature r) \<le> 35 \<and>
          (\<exists>x. - 5 \<le> x \<and> x \<le> 35 \<and> temperature r = py_round1 x) \<and>
          (\<exists>m::int. dec_value (temperature r) = of_int m / 10))"
proof -
  have h: "(30::int) < 739000" by simp
  from C3_temperatures_in_range_and_rounded [OF valid_739000 h, of cities 30 "\<lambda>k. 0"]
  show ?thesis by blast
qed

section \<open>The calendar\<close>

lemma month_day_ok:
  assumes "0 \<le> r" and "r \<le> 364"
  shows "\<exists>m d. month_day leap r = (m, d) \<and> 1 \<le> m \<and> m \<le> 12 \<and> 1 \<le> d \<and> d \<le> 31 \<and>
           DAYS_BEFORE_MONTH ! nat m + py_int (m > 2 \<and> leap) + d = r + 1"
proof -
  define m0 where "m0 = (r + 50) div 32"
  have lo: "32 * m0 \<le> r + 50" and hi: "r + 50 < 32 * m0 + 32"
    unfolding m0_def by presburger+
  have "1 \<le> m0" "m0 \<le> 12" using lo hi assms by linarith+
  then have "m0 = 1 \<or> m0 = 2 \<or> m0 = 3 \<or> m0 = 4 \<or> m0 = 5 \<or> m0 = 6 \<or>
      m0 = 7 \<or> m0 = 8 \<or> m0 = 9 \<or> m0 = 10 \<or> m0 = 11 \<or> m0 = 12"
    by arith
  then consider "m0 = 1" | "m0 = 2" | "m0 = 3" | "m0 = 4" | "m0 = 5" | "m0 = 6"
    | "m0 = 7" | "m0 = 8" | "m0 = 9" | "m0 = 10" | "m0 = 11" | "m0 = 12"
    by blast
  then show ?thesis
  proof cases
    case 1
    then show ?thesis using lo hi assms
      by (cases leap) (simp_all add: month_day_def m0_def [symmetric] Let_def
            DAYS_BEFORE_MONTH_def DAYS_IN_MONTH_def py_int_def)
  next
    case 2
    then show ?thesis using lo hi assms
      by (cases leap) (simp_all add: month_day_def m0_def [symmetric] Let_def
            DAYS_BEFORE_MONTH_def DAYS_IN_MONTH_def py_int_def)
  next
    case 3
    then show ?thesis using lo hi assms
      by (cases leap) (simp_all add: month_day_def m0_def [symmetric] Let_def
            DAYS_BEFORE_MONTH_def DAYS_IN_MONTH_def py_int_def)
  next
    case 4
    then show ?thesis using lo hi assms
      by (cases leap) (simp_all add: month_day_def m0_def [symmetric] Let_def
            DAYS_BEFORE_MONTH_def DAYS_IN_MONTH_def py_int_def)
  next
    case 5
    then show ?thesis using lo hi assms
      by (cases leap) (simp_all add: month_day_def m0_def [symmetric] Let_def
            DAYS_BEFORE_MONTH_def DAYS_IN_MONTH_def py_int_def)
  next
    case 6
    then show ?thesis using lo hi assms
      by (cases leap) (simp_all add: month_day_def m0_def [symmetric] Let_def
            DAYS_BEFORE_MONTH_def DAYS_IN_MONTH_def py_int_def)
  next
    case 7
    then show ?thesis using lo hi assms
      by (cases leap) (simp_all add: month_day_def m0_def [symmetric] Let_def
            DAYS_BEFORE_MONTH_def DAYS_IN_MONTH_def py_int_def)
  next
    case 8
    then show ?thesis using lo hi assms
      by (cases leap) (simp_all add: month_day_def m0_def [symmetric] Let_def
            DAYS_BEFORE_MONTH_def DAYS_IN_MONTH_def py_int_def)
  next
    case 9
    then show ?thesis using lo hi assms
      by (cases leap) (simp_all add: month_day_def m0_def [symmetric] Let_def
            DAYS_BEFORE_MONTH_def DAYS_IN_MONTH_def py_int_def)
  next
    case 10
    then show ?thesis using lo hi assms
      by (cases leap) (simp_all add: month_day_def m0_def [symmetric] Let_def
            DAYS_BEFORE_MONTH_def DAYS_IN_MONTH_def py_int_def)
  next
    case 11
    then show ?thesis using lo hi assms
      by (cases leap) (simp_all add: month_day_def m0_def [symmetric] Let_def
            DAYS_BEFORE_MONTH_def DAYS_IN_MONTH_def py_int_def)
  next
    case 12
    then show ?thesis using lo hi assms
      by (cases leap) (simp_all add: month_day_def m0_def [symmetric] Let_def
            DAYS_BEFORE_MONTH_def DAYS_IN_MONTH_def py_int_def)
  qed
qed


lemma ord2ymd_unfold:
  "ord2ymd ordinal =
     (let n0 = ordinal - 1;
          a = n0 div 146097; r1 = n0 mod 146097;
          b = r1 div 36524; r2 = r1 mod 36524;
          c = r2 div 1461; r3 = r2 mod 1461;
          e = r3 div 365; r4 = r3 mod 365;
          y = a * 400 + 1 + b * 100 + c * 4 + e
      in if e = 4 \<or> b = 4 then (y - 1, 12, 31)
         else (y, month_day (e = 3 \<and> (c \<noteq> 24 \<or> b = 3)) r4))"
  unfolding ord2ymd_def month_day_def Let_def by (simp only: case_prod_beta fst_conv snd_conv if_distrib [of fst] if_distrib [of snd])

lemma div_mod_split:
  fixes k q r :: int
  assumes "0 \<le> r" and "r < k"
  shows "(k * q + r) div k = q" and "(k * q + r) mod k = r"
proof -
  have k: "k \<noteq> 0" using assms by auto
  have "(k * q + r) div k = q + r div k"
    using k by (rule div_mult_self4)
  then show "(k * q + r) div k = q"
    using assms by (simp add: div_pos_pos_trivial)
  have "(k * q + r) mod k = r mod k"
    by (rule mod_mult_self4)
  then show "(k * q + r) mod k = r"
    using assms by (simp add: mod_pos_pos_trivial)
qed

lemma days_before_year_split:
  assumes "0 \<le> b" "b \<le> 3" "0 \<le> c" "c \<le> 24" "0 \<le> e" "e \<le> 3"
  shows "days_before_year (a * 400 + 1 + b * 100 + c * 4 + e) =
           146097 * a + 36524 * b + 1461 * c + 365 * e"
proof -
  define y where "y = a * 400 + b * 100 + c * 4 + e"
  have "y = 4 * (100 * a + 25 * b + c) + e" by (simp add: y_def)
  then have d4: "y div 4 = 100 * a + 25 * b + c"
    using assms by (simp only: div_mod_split)
  have "y = 100 * (4 * a + b) + (c * 4 + e)" by (simp add: y_def)
  moreover have "0 \<le> c * 4 + e" "c * 4 + e < 100" using assms by linarith+
  ultimately have d100: "y div 100 = 4 * a + b"
    by (simp only: div_mod_split)
  have "y = 400 * a + (b * 100 + c * 4 + e)" by (simp add: y_def)
  moreover have "0 \<le> b * 100 + c * 4 + e" "b * 100 + c * 4 + e < 400" using assms by linarith+
  ultimately have d400: "y div 400 = a"
    by (simp only: div_mod_split)
  have "days_before_year (y + 1) = y * 365 + y div 4 - y div 100 + y div 400"
    by (simp add: days_before_year_def Let_def)
  also have "\<dots> = 146097 * a + 36524 * b + 1461 * c + 365 * e"
    unfolding d4 d100 d400 by (simp add: y_def)
  finally show ?thesis
    by (simp add: y_def algebra_simps)
qed

lemma is_leap_split:
  assumes "0 \<le> b" "b \<le> 3" "0 \<le> c" "c \<le> 24" "0 \<le> e" "e \<le> 3"
  shows "is_leap (a * 400 + 1 + b * 100 + c * 4 + e) \<longleftrightarrow> (e = 3 \<and> (c \<noteq> 24 \<or> b = 3))"
proof -
  define y where "y = a * 400 + 1 + b * 100 + c * 4 + e"
  have m4: "y mod 4 = 0 \<longleftrightarrow> e = 3"
  proof (cases "e = 3")
    case True
    then have "y = 4 * (100 * a + 25 * b + c + 1) + 0" by (simp add: y_def)
    then have "y mod 4 = 0" by (simp only: mod_mult_self4) simp
    then show ?thesis using True by simp
  next
    case False
    have "y = 4 * (100 * a + 25 * b + c) + (e + 1)" by (simp add: y_def)
    moreover have "0 \<le> e + 1" "e + 1 < 4" using assms False by linarith+
    ultimately have "y mod 4 = e + 1" by (simp only: div_mod_split)
    then show ?thesis using False assms by simp
  qed
  have m100: "y mod 100 = 0 \<longleftrightarrow> (c = 24 \<and> e = 3)"
  proof (cases "c = 24 \<and> e = 3")
    case True
    then have "y = 100 * (4 * a + b + 1) + 0" by (simp add: y_def)
    then have "y mod 100 = 0" by (simp only: mod_mult_self4) simp
    then show ?thesis using True by simp
  next
    case False
    have "y = 100 * (4 * a + b) + (c * 4 + e + 1)" by (simp add: y_def)
    moreover have "0 \<le> c * 4 + e + 1" "c * 4 + e + 1 < 100" using assms False by linarith+
    ultimately have "y mod 100 = c * 4 + e + 1" by (simp only: div_mod_split)
    then show ?thesis using False assms by simp
  qed
  have m400: "y mod 400 = 0 \<longleftrightarrow> (b = 3 \<and> c = 24 \<and> e = 3)"
  proof (cases "b = 3 \<and> c = 24 \<and> e = 3")
    case True
    then have "y = 400 * (a + 1) + 0" by (simp add: y_def)
    then have "y mod 400 = 0" by (simp only: mod_mult_self4) simp
    then show ?thesis using True by simp
  next
    case False
    have "y = 400 * a + (b * 100 + c * 4 + e + 1)" by (simp add: y_def)
    moreover have "0 \<le> b * 100 + c * 4 + e + 1" "b * 100 + c * 4 + e + 1 < 400"
      using assms False by linarith+
    ultimately have "y mod 400 = b * 100 + c * 4 + e + 1" by (simp only: div_mod_split)
    then show ?thesis using False assms by simp
  qed
  show ?thesis
    unfolding is_leap_def y_def [symmetric] m4 m100 m400 by blast
qed


lemma ymd2ord_dec31:
  assumes "is_leap y" and "days_before_year y = k"
  shows "ymd2ord y 12 31 = k + 366"
  using assms
  by (simp add: ymd2ord_def days_before_month_def DAYS_BEFORE_MONTH_def py_int_def)

lemma ord2ymd_ok:
  assumes "1 \<le> n"
  shows "\<exists>y m d. ord2ymd n = (y, m, d) \<and> 1 \<le> y \<and> 1 \<le> m \<and> m \<le> 12 \<and> 1 \<le> d \<and> d \<le> 31 \<and>
           ymd2ord y m d = n \<and> (n \<le> 3652059 \<longrightarrow> y \<le> 9999)"
proof -
  define n0 where "n0 = n - 1"
  define a where "a = n0 div 146097"
  define r1 where "r1 = n0 mod 146097"
  define b where "b = r1 div 36524"
  define r2 where "r2 = r1 mod 36524"
  define c where "c = r2 div 1461"
  define r3 where "r3 = r2 mod 1461"
  define e where "e = r3 div 365"
  define r4 where "r4 = r3 mod 365"
  define y where "y = a * 400 + 1 + b * 100 + c * 4 + e"
  have n0: "0 \<le> n0" using assms by (simp add: n0_def)
  have a: "0 \<le> a" "n0 = 146097 * a + r1" "0 \<le> r1" "r1 < 146097"
    unfolding a_def r1_def using n0 by (simp_all add: pos_imp_zdiv_nonneg_iff)
  have b: "0 \<le> b" "r1 = 36524 * b + r2" "0 \<le> r2" "r2 < 36524"
    unfolding b_def r2_def using a(3) by (simp_all add: pos_imp_zdiv_nonneg_iff)
  have c: "0 \<le> c" "r2 = 1461 * c + r3" "0 \<le> r3" "r3 < 1461"
    unfolding c_def r3_def using b(3) by (simp_all add: pos_imp_zdiv_nonneg_iff)
  have e: "0 \<le> e" "r3 = 365 * e + r4" "0 \<le> r4" "r4 < 365"
    unfolding e_def r4_def using c(3) by (simp_all add: pos_imp_zdiv_nonneg_iff)
  have b4: "b \<le> 4" using b a by linarith
  have c24: "c \<le> 24" using c b by linarith
  have e4: "e \<le> 4" using e c by linarith
  have res: "ord2ymd n =
      (if e = 4 \<or> b = 4 then (y - 1, 12, 31)
       else (y, month_day (e = 3 \<and> (c \<noteq> 24 \<or> b = 3)) r4))"
    unfolding ord2ymd_unfold [of n] Let_def
    by (simp only: n0_def a_def r1_def b_def r2_def c_def r3_def e_def r4_def y_def)
  have ypos: "1 \<le> y - 1" if "e = 4 \<or> b = 4"
    using that a(1) b(1) c(1) e(1) by (auto simp: y_def)
  have ypos': "1 \<le> y"
    using a(1) b(1) c(1) e(1) by (simp add: y_def)
  have n: "n = n0 + 1" by (simp add: n0_def)
  show ?thesis
  proof (cases "b = 4")
    case True
    have r2z: "r2 = 0" using True a b by linarith
    have cz: "c = 0" "r3 = 0" using r2z c by linarith+
    have ez: "e = 0" "r4 = 0" using cz e by linarith+
    define y' where "y' = a * 400 + 1 + 3 * 100 + 24 * 4 + 3"
    have yv: "y - 1 = y'"
      using True cz ez by (simp add: y_def y'_def)
    have dby: "days_before_year y' = 146097 * a + 36524 * 3 + 1461 * 24 + 365 * 3"
      unfolding y'_def by (rule days_before_year_split) simp_all
    have lp: "is_leap y'"
      unfolding y'_def by (subst is_leap_split) simp_all
    have "ymd2ord (y - 1) 12 31 = n"
      unfolding yv ymd2ord_dec31 [OF lp dby] n a(2) b(2) True r2z by simp
    moreover have "y - 1 \<le> 9999" if "n \<le> 3652059"
    proof -
      have "a \<le> 23" using that n a(2) b(2) True r2z by linarith
      then show ?thesis using True cz ez by (simp add: y_def)
    qed
    ultimately show ?thesis
      using True res ypos by auto
  next
    case False
    then have b3: "b \<le> 3" using b4 by simp
    show ?thesis
    proof (cases "e = 4")
      case True
      then have r4z: "r4 = 0" using e c by linarith
      have c23: "c \<le> 23" using True e c b by linarith
      define y' where "y' = a * 400 + 1 + b * 100 + c * 4 + 3"
      have yv: "y - 1 = y'"
        using True by (simp add: y_def y'_def)
      have dby: "days_before_year y' = 146097 * a + 36524 * b + 1461 * c + 365 * 3"
        unfolding y'_def using b(1) b3 c(1) c24 by (intro days_before_year_split) simp_all
      have lp: "is_leap y'"
        unfolding y'_def using b(1) b3 c(1) c23 by (subst is_leap_split) simp_all
      have "ymd2ord (y - 1) 12 31 = n"
        unfolding yv ymd2ord_dec31 [OF lp dby] n a(2) b(2) c(2) e(2) True r4z by simp
      moreover have "y - 1 \<le> 9999" if "n \<le> 3652059"
      proof -
        have "a \<le> 24" using that n a(2) a(3) by linarith
        then show ?thesis using True b3 c23 by (simp add: y_def)
      qed
      ultimately show ?thesis
        using True res ypos by auto
    next
      case False
      then have e3: "e \<le> 3" using e4 by simp
      define leap where "leap = (e = 3 \<and> (c \<noteq> 24 \<or> b = 3))"
      have r4b: "r4 \<le> 364" using e(4) by simp
      from month_day_ok [OF e(3) r4b, of leap]
      obtain m d where md: "month_day leap r4 = (m, d)" "1 \<le> m" "m \<le> 12" "1 \<le> d" "d \<le> 31"
        "DAYS_BEFORE_MONTH ! nat m + py_int (m > 2 \<and> leap) + d = r4 + 1"
        by blast
      have dby: "days_before_year y = 146097 * a + 36524 * b + 1461 * c + 365 * e"
        unfolding y_def using b(1) b3 c(1) c24 e(1) e3 by (rule days_before_year_split)
      have lp: "is_leap y \<longleftrightarrow> leap"
        unfolding y_def leap_def using b(1) b3 c(1) c24 e(1) e3 by (rule is_leap_split)
      have "ymd2ord y m d = days_before_year y + (DAYS_BEFORE_MONTH ! nat m + py_int (m > 2 \<and> leap) + d)"
        by (simp add: ymd2ord_def days_before_month_def lp)
      also have "\<dots> = n"
        unfolding md(6) dby n a(2) b(2) c(2) e(2) by simp
      finally have "ymd2ord y m d = n" .
      moreover have "ord2ymd n = (y, m, d)"
        using res False \<open>b \<noteq> 4\<close> md(1) by (simp add: leap_def)
      moreover have "y \<le> 9999" if "n \<le> 3652059"
      proof -
        have a24: "a \<le> 24" using that n a(2) a(3) by linarith
        show ?thesis
        proof (cases "a = 24")
          case True
          have "\<not> (b = 3 \<and> c = 24 \<and> e = 3)"
            using that n a(2) b(2) c(2) e(2) e(3) True by linarith
          then have "b * 100 + c * 4 + e \<le> 398"
            using b3 c24 e3 b(1) c(1) e(1) by linarith
          then show ?thesis using True by (simp add: y_def)
        next
          case False
          then have "a \<le> 23" using a24 by simp
          then show ?thesis using b3 c24 e3 by (simp add: y_def)
        qed
      qed
      ultimately show ?thesis
        using md(2-5) ypos' by blast
    qed
  qed
qed

section \<open>The CSV file of a generated frame\<close>

lemma is_digit_digit_char: "d < 10 \<Longrightarrow> is_digit (digit_char d)"
  by (simp add: is_digit_def digit_char_def)

lemma digit_char_neq:
  assumes "d < 10"
  shows "digit_char d \<noteq> CHR 0x0A" "digit_char d \<noteq> CHR '',''" "digit_char d \<noteq> CHR ''-''"
    "digit_char d \<noteq> CHR ''.''" "digit_char d \<noteq> CHR 0x22" "digit_char d \<noteq> CHR 0x0D"
  using is_digit_digit_char [OF assms] by (auto simp: is_digit_def)

lemma str_nat_digits: "list_all is_digit (str_nat n)"
proof (induction n rule: str_nat.induct)
  case (1 n)
  show ?case
  proof (cases "n < 10")
    case True
    then show ?thesis by (subst str_nat.simps) (simp add: is_digit_digit_char)
  next
    case False
    then have "list_all is_digit (str_nat (n div 10))" using 1 by simp
    moreover have "is_digit (digit_char (n mod 10))" by (rule is_digit_digit_char) simp
    ultimately show ?thesis using False by (subst str_nat.simps) simp
  qed
qed

lemma str_nat_nonempty: "str_nat n \<noteq> []"
  by (subst str_nat.simps) simp

lemma str_nat_one: "n < 10 \<Longrightarrow> str_nat n = [digit_char n]"
  by (subst str_nat.simps) simp

lemma length_str_nat_2: "n < 100 \<Longrightarrow> length (str_nat n) \<le> 2"
  by (subst str_nat.simps) (simp add: str_nat_one)

lemma length_str_nat_4:
  assumes "n < 10000"
  shows "length (str_nat n) \<le> 4"
proof (cases "n < 100")
  case True
  then show ?thesis using length_str_nat_2 [of n] by simp
next
  case False
  have "n div 10 div 10 < 100" using assms by simp
  then have "length (str_nat (n div 10 div 10)) \<le> 2" by (rule length_str_nat_2)
  moreover have "str_nat n = str_nat (n div 10) @ [digit_char (n mod 10)]"
    using False by (subst str_nat.simps) simp
  moreover have "\<not> n div 10 < 10" using False by arith
  then have "str_nat (n div 10) = str_nat (n div 10 div 10) @ [digit_char (n div 10 mod 10)]"
    by (subst str_nat.simps) simp
  ultimately show ?thesis by simp
qed

lemma zfill_digits: "list_all is_digit s \<Longrightarrow> list_all is_digit (zfill w s)"
  by (auto simp: zfill_def is_digit_def list_all_iff)

lemma length_zfill: "length s \<le> w \<Longrightarrow> length (zfill w s) = w"
  by (simp add: zfill_def)


lemma isoformat_shape:
  assumes "valid_date d"
  shows "iso_shape (isoformat d)"
proof -
  have "1 \<le> d" "d \<le> 3652059"
    using assms by (simp_all add: valid_date_def MAXORDINAL_def)
  from ord2ymd_ok [OF this(1)] this(2)
  obtain y m dd where o: "ord2ymd d = (y, m, dd)"
    and b: "1 \<le> y" "y \<le> 9999" "1 \<le> m" "m \<le> 12" "1 \<le> dd" "dd \<le> 31"
    by blast
  define ys where "ys = zfill 4 (str_nat (nat y))"
  define ms where "ms = zfill 2 (str_nat (nat m))"
  define ds where "ds = zfill 2 (str_nat (nat dd))"
  have ly: "length ys = 4"
    unfolding ys_def using b by (intro length_zfill length_str_nat_4) simp
  have lm: "length ms = 2"
    unfolding ms_def using b by (intro length_zfill length_str_nat_2) simp
  have ld: "length ds = 2"
    unfolding ds_def using b by (intro length_zfill length_str_nat_2) simp
  have dy: "list_all is_digit ys" "list_all is_digit ms" "list_all is_digit ds"
    unfolding ys_def ms_def ds_def by (simp_all add: zfill_digits str_nat_digits)
  have iso: "isoformat d = ys @ ''-'' @ ms @ ''-'' @ ds"
    by (simp add: isoformat_def o ys_def ms_def ds_def)
  show ?thesis
    unfolding iso iso_shape_def using ly lm ld dy
    by (simp add: nth_append)
qed

lemma float_repr_shape: "one_decimal (float_repr t)"
proof -
  define ip where "ip = str_nat (tenths t div 10)"
  define u where "u = ip @ ''.'' @ [digit_char (tenths t mod 10)]"
  have ne: "ip \<noteq> []" unfolding ip_def by (rule str_nat_nonempty)
  have dg: "list_all is_digit ip" unfolding ip_def by (rule str_nat_digits)
  have fd: "is_digit (digit_char (tenths t mod 10))" by (rule is_digit_digit_char) simp
  have hd_ip: "hd ip \<noteq> CHR ''-''"
    using ne dg by (cases ip) (auto simp: is_digit_def)
  have r: "float_repr t = (if negative t then ''-'' else []) @ u"
    by (simp add: float_repr_def u_def ip_def str_nat_one)
  have strip: "(case float_repr t of [] \<Rightarrow> [] | c # t' \<Rightarrow> if c = CHR ''-'' then t' else float_repr t) = u"
  proof (cases "negative t")
    case True
    then show ?thesis by (simp add: r)
  next
    case False
    then show ?thesis using ne hd_ip by (cases ip) (auto simp: r u_def)
  qed
  have len: "length u = length ip + 2" by (simp add: u_def)
  have "3 \<le> length u" using ne len by (cases ip) auto
  moreover have "take (length u - 2) u = ip" by (simp add: len) (simp add: u_def)
  moreover have "u ! (length u - 2) = CHR ''.''" by (simp add: len) (simp add: u_def nth_append)
  moreover have "last u = digit_char (tenths t mod 10)" by (simp add: u_def)
  ultimately show ?thesis
    unfolding one_decimal_def strip Let_def using dg fd by simp
qed

lemma split_on_nonempty: "split_on sep s \<noteq> []"
  by (induction s) (auto split: list.splits)

lemma split_on_none: "sep \<notin> set w \<Longrightarrow> split_on sep w = [w]"
  by (induction w) auto

lemma split_on_append: "sep \<notin> set w \<Longrightarrow> split_on sep (w @ sep # rest) = w # split_on sep rest"
  by (induction w) auto

lemma split_on_lines:
  assumes "\<forall>l \<in> set ls. sep \<notin> set l"
  shows "split_on sep (concat (map (\<lambda>l. l @ [sep]) ls)) = ls @ [[]]"
  using assms
proof (induction ls)
  case Nil
  show ?case by simp
next
  case (Cons l ls)
  then have "split_on sep (l @ sep # concat (map (\<lambda>l. l @ [sep]) ls)) = l # (ls @ [[]])"
    by (simp add: split_on_append)
  then show ?case by simp
qed

lemma lines_of_lines:
  assumes "\<forall>l \<in> set ls. CHR 0x0A \<notin> set l"
  shows "lines_of (concat (map (\<lambda>l. l @ [CHR 0x0A]) ls)) = ls"
  by (simp add: lines_of_def split_on_lines [OF assms])


lemma isoformat_chars:
  assumes "valid_date d" and "ch \<in> set (isoformat d)"
  shows "is_digit ch \<or> ch = CHR ''-''"
proof -
  have "1 \<le> d"
    using assms(1) by (simp add: valid_date_def)
  from ord2ymd_ok [OF this]
  obtain y m dd where o: "ord2ymd d = (y, m, dd)"
    by blast
  have "list_all is_digit (zfill 4 (str_nat (nat y)))" "list_all is_digit (zfill 2 (str_nat (nat m)))"
    "list_all is_digit (zfill 2 (str_nat (nat dd)))"
    by (simp_all add: zfill_digits str_nat_digits)
  then show ?thesis
    using assms(2) by (auto simp: isoformat_def o list_all_iff)
qed

lemma float_repr_chars:
  assumes "ch \<in> set (float_repr t)"
  shows "is_digit ch \<or> ch = CHR ''-'' \<or> ch = CHR ''.''"
proof -
  have "list_all is_digit (str_nat (tenths t div 10))" "list_all is_digit (str_nat (tenths t mod 10))"
    by (rule str_nat_digits)+
  then show ?thesis
    using assms by (auto simp: float_repr_def list_all_iff split: if_splits)
qed

lemma is_digit_not_special:
  assumes "is_digit ch"
  shows "ch \<noteq> CHR 0x0A" "ch \<noteq> CHR '',''" "ch \<noteq> CHR ''-''" "ch \<noteq> CHR ''.''"
  using assms by (auto simp: is_digit_def)

lemma csv_field_plain: "\<not> list_ex csv_special s \<Longrightarrow> csv_field s = s"
  by (simp add: csv_field_def)

lemma csv_row_no_newline:
  assumes "date r = DateObj d" and "valid_date d" and "\<not> list_ex csv_special (city r)"
  shows "CHR 0x0A \<notin> set (csv_row r)"
proof
  assume "CHR 0x0A \<in> set (csv_row r)"
  then consider "CHR 0x0A \<in> set (isoformat d)" | "CHR 0x0A \<in> set (city r)"
    | "CHR 0x0A \<in> set (float_repr (temperature r))"
    using assms(1,3) by (auto simp: csv_row_def csv_field_plain)
  then show False
  proof cases
    case 1
    from isoformat_chars [OF assms(2) this] show False
      by (auto simp: is_digit_def)
  next
    case 2
    then show False using assms(3) by (auto simp: list_ex_iff csv_special_def)
  next
    case 3
    from float_repr_chars [OF this] show False
      by (auto simp: is_digit_def)
  qed
qed

lemma generated_rows:
  assumes "n < today" and "today \<le> MAXORDINAL" and "generate_for cs n today g = Inr (df, g')"
    and "r \<in> set df"
  shows "city r \<in> set cs \<and> (\<exists>d. date r = DateObj d \<and> today - n \<le> d \<and> d < today)"
proof -
  from generate_for_keys [OF assms(1,2), of cs g] assms(3)
  have k: "map key_of df = window_keys cs n today" by simp
  have "key_of r \<in> set (map key_of df)" using assms(4) by simp
  then have "key_of r \<in> set cs \<times> DateObj ` {today - n..<today}"
    by (simp only: k set_window_keys)
  then show ?thesis by (auto simp: key_of_def)
qed

lemma csv_of_generated:
  assumes "0 < today - n" and "n < today" and "today \<le> MAXORDINAL"
    and "generate_for cs n today g = Inr (df, g')"
    and "\<forall>c \<in> set cs. \<not> list_ex csv_special c"
  shows "lines_of (to_csv df) = csv_header # map csv_row df \<and>
         (\<forall>r \<in> set df. \<exists>d. date r = DateObj d \<and>
             csv_row r = isoformat d @ '','' @ city r @ '','' @ float_repr (temperature r) \<and>
             iso_shape (isoformat d) \<and> one_decimal (float_repr (temperature r)))"
proof -
  have row: "\<exists>d. date r = DateObj d \<and> valid_date d \<and> \<not> list_ex csv_special (city r)"
    if "r \<in> set df" for r
  proof -
    from generated_rows [OF assms(2,3,4) that]
    obtain d where "city r \<in> set cs" "date r = DateObj d" "today - n \<le> d" "d < today"
      by blast
    then show ?thesis
      using assms(1,3,5) by (auto simp: valid_date_def)
  qed
  have "CHR 0x0A \<notin> set l" if l: "l \<in> set (csv_header # map csv_row df)" for l
  proof (cases "l = csv_header")
    case True
    then show ?thesis by (simp add: csv_header_def)
  next
    case False
    with l obtain r where r: "r \<in> set df" "l = csv_row r" by auto
    from row [OF r(1)] show ?thesis
      unfolding r(2) using csv_row_no_newline by blast
  qed
  then have "lines_of (to_csv df) = csv_header # map csv_row df"
    unfolding to_csv_def by (intro lines_of_lines) blast
  moreover have "\<exists>d. date r = DateObj d \<and>
             csv_row r = isoformat d @ '','' @ city r @ '','' @ float_repr (temperature r) \<and>
             iso_shape (isoformat d) \<and> one_decimal (float_repr (temperature r))"
    if "r \<in> set df" for r
  proof -
    from row [OF that] obtain d where d: "date r = DateObj d" "valid_date d"
      "\<not> list_ex csv_special (city r)" by blast
    have "csv_row r = isoformat d @ '','' @ city r @ '','' @ float_repr (temperature r)"
      by (simp add: csv_row_def d(1) csv_field_plain [OF d(3)])
    then show ?thesis
      using d(1) isoformat_shape [OF d(2)] float_repr_shape by blast
  qed
  ultimately show ?thesis by blast
qed

lemma cities_plain: "\<forall>c \<in> set cities. \<not> list_ex csv_special c"
  by (simp add: cities_def csv_special_def)

lemma nth_py_range: "i < nat n \<Longrightarrow> py_range n ! i = int i"
  by (simp add: py_range_def)

lemma nth_window_keys:
  assumes "c < length cs" and "i < nat n"
  shows "window_keys cs n today ! (c * nat n + i) = (cs ! c, DateObj (today - n + int i))"
  using assms(1)
proof (induction cs arbitrary: c)
  case Nil
  then show ?case by simp
next
  case (Cons a cs)
  define block where "block = map (\<lambda>i. (a, DateObj (today - n + i))) (py_range n)"
  have w: "window_keys (a # cs) n today = block @ window_keys cs n today"
    by (simp add: window_keys_def block_def)
  have lb: "length block = nat n" by (simp add: block_def length_py_range)
  show ?case
  proof (cases c)
    case 0
    then show ?thesis
      using assms(2) by (simp add: w nth_append lb) (simp add: block_def length_py_range nth_py_range)
  next
    case (Suc c')
    then have "c' < length cs" using Cons.prems by simp
    from Cons.IH [OF this]
    have "window_keys cs n today ! (c' * nat n + i) = (cs ! c', DateObj (today - n + int i))" .
    moreover have "(block @ window_keys cs n today) ! (c * nat n + i) =
        window_keys cs n today ! (c' * nat n + i)"
      by (simp add: nth_append lb Suc)
    ultimately show ?thesis by (simp add: w Suc)
  qed
qed

lemma digit_val_digit_char: "d < 10 \<Longrightarrow> digit_val (digit_char d) = d"
  by (simp add: digit_val_def digit_char_def)

lemma digits_value_snoc: "digits_value (s @ [c]) = 10 * digits_value s + digit_val c"
  by (simp add: digits_value_def)

lemma digits_value_str_nat: "digits_value (str_nat n) = n"
proof (induction n rule: str_nat.induct)
  case (1 n)
  show ?case
  proof (cases "n < 10")
    case True
    then show ?thesis by (simp add: str_nat_one digits_value_def digit_val_digit_char)
  next
    case False
    then have ih: "digits_value (str_nat (n div 10)) = n div 10"
      using 1 by simp
    have "str_nat n = str_nat (n div 10) @ [digit_char (n mod 10)]"
      using False by (subst str_nat.simps) simp
    then show ?thesis
      by (simp add: digits_value_snoc ih digit_val_digit_char)
  qed
qed

lemma digits_value_zeros: "digits_value (replicate k (CHR ''0'') @ s) = digits_value s"
  unfolding digits_value_def by (induction k) (simp_all add: digit_val_def)

lemma digits_value_zfill: "digits_value (zfill w (str_nat n)) = n"
  unfolding zfill_def by (simp only: digits_value_zeros digits_value_str_nat)

lemma isoformat_reads_back:
  assumes "valid_date d"
  shows "read_ymd (isoformat d) = ord2ymd d"
    and "\<exists>y m dd. ord2ymd d = (y, m, dd) \<and> 1 \<le> y \<and> y \<le> 9999 \<and> 1 \<le> m \<and> m \<le> 12 \<and>
           1 \<le> dd \<and> dd \<le> 31 \<and> ymd2ord y m dd = d"
proof -
  have "1 \<le> d" "d \<le> 3652059"
    using assms by (simp_all add: valid_date_def MAXORDINAL_def)
  from ord2ymd_ok [OF this(1)] this(2)
  obtain y m dd where o: "ord2ymd d = (y, m, dd)"
    and b: "1 \<le> y" "y \<le> 9999" "1 \<le> m" "m \<le> 12" "1 \<le> dd" "dd \<le> 31"
    and rt: "ymd2ord y m dd = d"
    by blast
  show "\<exists>y m dd. ord2ymd d = (y, m, dd) \<and> 1 \<le> y \<and> y \<le> 9999 \<and> 1 \<le> m \<and> m \<le> 12 \<and>
           1 \<le> dd \<and> dd \<le> 31 \<and> ymd2ord y m dd = d"
    using o b rt by blast
  define ys where "ys = zfill 4 (str_nat (nat y))"
  define ms where "ms = zfill 2 (str_nat (nat m))"
  define ds where "ds = zfill 2 (str_nat (nat dd))"
  have ly: "length ys = 4"
    unfolding ys_def using b by (intro length_zfill length_str_nat_4) simp
  have lm: "length ms = 2"
    unfolding ms_def using b by (intro length_zfill length_str_nat_2) simp
  have iso: "isoformat d = ys @ ''-'' @ ms @ ''-'' @ ds"
    by (simp add: isoformat_def o ys_def ms_def ds_def)
  have p1: "take 4 (isoformat d) = ys"
    unfolding iso using ly by simp
  have p2: "take 2 (drop 5 (isoformat d)) = ms"
    unfolding iso using ly lm by simp
  have p3: "drop 8 (isoformat d) = ds"
    unfolding iso using ly lm by simp
  have n1: "digits_value ys = nat y" unfolding ys_def by (rule digits_value_zfill)
  have n2: "digits_value ms = nat m" unfolding ms_def by (rule digits_value_zfill)
  have n3: "digits_value ds = nat dd" unfolding ds_def by (rule digits_value_zfill)
  show "read_ymd (isoformat d) = ord2ymd d"
    unfolding read_ymd_def p1 p2 p3 n1 n2 n3 o using b by simp
qed

lemma float_repr_reads_back: "read_decimal (float_repr t) = t"
proof -
  define ip where "ip = str_nat (tenths t div 10)"
  define f where "f = digit_char (tenths t mod 10)"
  define u where "u = ip @ ''.'' @ [f]"
  have ne: "ip \<noteq> []" unfolding ip_def by (rule str_nat_nonempty)
  have dg: "list_all is_digit ip" unfolding ip_def by (rule str_nat_digits)
  have hd_ip: "hd ip \<noteq> CHR ''-''"
    using ne dg by (cases ip) (auto simp: is_digit_def)
  have r: "float_repr t = (if negative t then ''-'' else []) @ u"
    by (simp add: float_repr_def u_def ip_def f_def str_nat_one)
  have hd_u: "hd u \<noteq> CHR ''-''" "u \<noteq> []"
    using ne hd_ip by (simp_all add: u_def)
  have neg: "(float_repr t \<noteq> [] \<and> hd (float_repr t) = CHR ''-'') = negative t"
    using hd_u by (simp add: r)
  have strip: "(if negative t then tl (float_repr t) else float_repr t) = u"
    by (simp add: r)
  have len: "length u = length ip + 2" by (simp add: u_def)
  have t1: "take (length u - 2) u = ip" by (simp add: len) (simp add: u_def)
  have t2: "last u = f" by (simp add: u_def)
  have v1: "digits_value ip = tenths t div 10"
    unfolding ip_def by (rule digits_value_str_nat)
  have v2: "digits_value [f] = tenths t mod 10"
    by (simp add: digits_value_def f_def digit_val_digit_char)
  have "read_decimal (float_repr t) = Dec1 (negative t) (10 * (tenths t div 10) + tenths t mod 10)"
    unfolding read_decimal_def Let_def neg strip t1 t2 v1 v2 by simp
  then show ?thesis by simp
qed

lemma split_on_three:
  assumes "sep \<notin> set a" and "sep \<notin> set b" and "sep \<notin> set c"
  shows "split_on sep (a @ [sep] @ b @ [sep] @ c) = [a, b, c]"
  using assms by (simp add: split_on_append split_on_none)

lemma csv_row_fields:
  assumes "date r = DateObj d" and "valid_date d" and "\<not> list_ex csv_special (city r)"
  shows "split_on (CHR '','') (csv_row r) = [isoformat d, city r, float_repr (temperature r)]"
proof -
  have a: "CHR '','' \<notin> set (isoformat d)"
  proof
    assume "CHR '','' \<in> set (isoformat d)"
    from isoformat_chars [OF assms(2) this] show False
      by (simp add: is_digit_def)
  qed
  have b: "CHR '','' \<notin> set (city r)"
    using assms(3) by (auto simp: list_ex_iff csv_special_def)
  have c: "CHR '','' \<notin> set (float_repr (temperature r))"
  proof
    assume "CHR '','' \<in> set (float_repr (temperature r))"
    from float_repr_chars [OF this] show False
      by (simp add: is_digit_def)
  qed
  have "csv_row r = isoformat d @ [CHR '',''] @ city r @ [CHR '',''] @ float_repr (temperature r)"
    by (simp add: csv_row_def assms(1) csv_field_plain [OF assms(3)])
  then show ?thesis
    using split_on_three [OF a b c] by simp
qed

lemma line_shows_csv_row:
  assumes "date r = DateObj d" and "valid_date d" and "\<not> list_ex csv_special (city r)"
  shows "line_shows (csv_row r) r"
proof -
  from isoformat_reads_back(2) [OF assms(2)]
  obtain y m dd where o: "ord2ymd d = (y, m, dd)"
    and b: "1 \<le> m" "m \<le> 12" "1 \<le> dd" "dd \<le> 31" and rt: "ymd2ord y m dd = d"
    by blast
  have ry: "read_ymd (isoformat d) = (y, m, dd)"
    using isoformat_reads_back(1) [OF assms(2)] o by simp
  show ?thesis
    unfolding line_shows_def csv_row_fields [OF assms]
    using isoformat_shape [OF assms(2)] float_repr_shape [of "temperature r"]
      float_repr_reads_back [of "temperature r"] b rt o assms(1)
    by (simp add: ry)
qed

lemma csv_of_generated_lines:
  assumes "0 < today - n" and "n < today" and "today \<le> MAXORDINAL"
    and "generate_for cs n today g = Inr (df, g')"
    and "\<forall>c \<in> set cs. \<not> list_ex csv_special c"
  shows "lines_of (to_csv df) = csv_header # map csv_row df"
    and "\<forall>r \<in> set df. line_shows (csv_row r) r"
    and "\<forall>r \<in> set df. \<exists>d. date r = DateObj d \<and>
             csv_row r = isoformat d @ '','' @ city r @ '','' @ float_repr (temperature r) \<and>
             iso_shape (isoformat d) \<and> read_ymd (isoformat d) = ord2ymd d \<and>
             one_decimal (float_repr (temperature r)) \<and>
             read_decimal (float_repr (temperature r)) = temperature r"
proof -
  from csv_of_generated [OF assms]
  show "lines_of (to_csv df) = csv_header # map csv_row df" by blast
  have row: "\<exists>d. date r = DateObj d \<and> valid_date d \<and> \<not> list_ex csv_special (city r)"
    if "r \<in> set df" for r
  proof -
    from generated_rows [OF assms(2,3,4) that]
    obtain d where "city r \<in> set cs" "date r = DateObj d" "today - n \<le> d" "d < today"
      by blast
    then show ?thesis
      using assms(1,3,5) by (auto simp: valid_date_def)
  qed
  show "\<forall>r \<in> set df. line_shows (csv_row r) r"
    using row line_shows_csv_row by blast
  show "\<forall>r \<in> set df. \<exists>d. date r = DateObj d \<and>
             csv_row r = isoformat d @ '','' @ city r @ '','' @ float_repr (temperature r) \<and>
             iso_shape (isoformat d) \<and> read_ymd (isoformat d) = ord2ymd d \<and>
             one_decimal (float_repr (temperature r)) \<and>
             read_decimal (float_repr (temperature r)) = temperature r"
  proof
    fix r assume "r \<in> set df"
    from row [OF this] obtain d where d: "date r = DateObj d" "valid_date d"
      "\<not> list_ex csv_special (city r)" by blast
    have "csv_row r = isoformat d @ '','' @ city r @ '','' @ float_repr (temperature r)"
      by (simp add: csv_row_def d(1) csv_field_plain [OF d(3)])
    then show "\<exists>d. date r = DateObj d \<and>
             csv_row r = isoformat d @ '','' @ city r @ '','' @ float_repr (temperature r) \<and>
             iso_shape (isoformat d) \<and> read_ymd (isoformat d) = ord2ymd d \<and>
             one_decimal (float_repr (temperature r)) \<and>
             read_decimal (float_repr (temperature r)) = temperature r"
      using d(1) isoformat_shape [OF d(2)] isoformat_reads_back(1) [OF d(2)]
        float_repr_shape float_repr_reads_back by blast
  qed
qed

text \<open>
  C7. The text written for a generated frame, read back line by line, is the header
  \<^verbatim>\<open>date,city,temperature\<close> followed by one line per reading, in the frame's order. The
  line of a reading shows that reading: its three fields between commas are the date as
  \<^verbatim>\<open>YYYY-MM-DD\<close>, with the year, month and day of the reading's date as its three
  numbers, the city, and a number with exactly one digit after the point that is the
  reading's temperature. This holds for the script's frame and for any frame of the
  loops whose city names need no quoting.
\<close>

theorem C7_csv_header_and_one_row_per_reading:
  assumes "valid_date today"
  shows "(0 < n \<and> n < today \<and> (\<forall>c \<in> set cs. \<not> list_ex csv_special c) \<longrightarrow>
            (\<exists>df g'. generate_for cs n today g = Inr (df, g') \<and>
               lines_of (to_csv df) = ''date,city,temperature'' # map csv_row df \<and>
               (\<forall>r \<in> set df. line_shows (csv_row r) r) \<and>
               (\<forall>r \<in> set df. \<exists>d. date r = DateObj d \<and>
                   csv_row r = isoformat d @ '','' @ city r @ '','' @ float_repr (temperature r) \<and>
                   iso_shape (isoformat d) \<and> read_ymd (isoformat d) = ord2ymd d \<and>
                   one_decimal (float_repr (temperature r)) \<and>
                   read_decimal (float_repr (temperature r)) = temperature r))) \<and>
         (30 < today \<longrightarrow>
            (\<exists>df g'. generate_weather_data today g = Inr (df, g') \<and>
               lines_of (to_csv df) = ''date,city,temperature'' # map csv_row df \<and>
               length (lines_of (to_csv df)) = 181 \<and>
               (\<forall>i < 180. line_shows (lines_of (to_csv df) ! Suc i) (df ! i)) \<and>
               (\<forall>r \<in> set df. \<exists>d. date r = DateObj d \<and>
                   csv_row r = isoformat d @ '','' @ city r @ '','' @ float_repr (temperature r) \<and>
                   iso_shape (isoformat d) \<and> read_ymd (isoformat d) = ord2ymd d \<and>
                   one_decimal (float_repr (temperature r)) \<and>
                   read_decimal (float_repr (temperature r)) = temperature r)))"
proof (intro conjI impI)
  have le: "today \<le> MAXORDINAL"
    using assms by (simp add: valid_date_def)
  {
    assume a: "0 < n \<and> n < today \<and> (\<forall>c \<in> set cs. \<not> list_ex csv_special c)"
    then have n: "0 < today - n" "n < today" and cs: "\<forall>c \<in> set cs. \<not> list_ex csv_special c"
      by simp_all
    from generate_for_keys [OF n(2) le, of cs g]
    obtain df g' where r: "generate_for cs n today g = Inr (df, g')" by blast
    from csv_of_generated_lines [OF n le r cs] r
    show "\<exists>df g'. generate_for cs n today g = Inr (df, g') \<and>
               lines_of (to_csv df) = ''date,city,temperature'' # map csv_row df \<and>
               (\<forall>r \<in> set df. line_shows (csv_row r) r) \<and>
               (\<forall>r \<in> set df. \<exists>d. date r = DateObj d \<and>
                   csv_row r = isoformat d @ '','' @ city r @ '','' @ float_repr (temperature r) \<and>
                   iso_shape (isoformat d) \<and> read_ymd (isoformat d) = ord2ymd d \<and>
                   one_decimal (float_repr (temperature r)) \<and>
                   read_decimal (float_repr (temperature r)) = temperature r)"
      unfolding csv_header_def by blast
  }
  {
    assume a: "30 < today"
    then have n: "0 < today - 30" "30 < today" by simp_all
    from generate_for_keys [OF a le, of cities g]
    obtain df g' where r: "generate_for cities 30 today g = Inr (df, g')"
      and k: "map key_of df = window_keys cities 30 today" by blast
    have "length (map key_of df) = 180"
      by (simp add: k length_window_keys length_cities)
    then have len: "length df = 180" by simp
    note csv = csv_of_generated_lines [OF n le r cities_plain]
    have l181: "length (lines_of (to_csv df)) = 181"
      by (simp add: csv(1) len)
    have shows_i: "line_shows (lines_of (to_csv df) ! Suc i) (df ! i)" if "i < 180" for i
    proof -
      have "df ! i \<in> set df" using that len by simp
      then have "line_shows (csv_row (df ! i)) (df ! i)" using csv(2) by blast
      then show ?thesis using that len by (simp add: csv(1))
    qed
    from r csv(1,3) l181 shows_i
    show "\<exists>df g'. generate_weather_data today g = Inr (df, g') \<and>
               lines_of (to_csv df) = ''date,city,temperature'' # map csv_row df \<and>
               length (lines_of (to_csv df)) = 181 \<and>
               (\<forall>i < 180. line_shows (lines_of (to_csv df) ! Suc i) (df ! i)) \<and>
               (\<forall>r \<in> set df. \<exists>d. date r = DateObj d \<and>
                   csv_row r = isoformat d @ '','' @ city r @ '','' @ float_repr (temperature r) \<and>
                   iso_shape (isoformat d) \<and> read_ymd (isoformat d) = ord2ymd d \<and>
                   one_decimal (float_repr (temperature r)) \<and>
                   read_decimal (float_repr (temperature r)) = temperature r)"
      unfolding csv_header_def generate_weather_data_def by blast
  }
qed

theorem C7_witness:
  "(\<exists>df g'. generate_for [''A'', ''B''] 3 739000 (\<lambda>k. 0) = Inr (df, g') \<and>
       lines_of (to_csv df) = ''date,city,temperature'' # map csv_row df \<and>
       (\<forall>r \<in> set df. line_shows (csv_row r) r) \<and>
       (\<forall>r \<in> set df. \<exists>d. date r = DateObj d \<and>
           csv_row r = isoformat d @ '','' @ city r @ '','' @ float_repr (temperature r) \<and>
           iso_shape (isoformat d) \<and> read_ymd (isoformat d) = ord2ymd d \<and>
           one_decimal (float_repr (temperature r)) \<and>
           read_decimal (float_repr (temperature r)) = temperature r)) \<and>
   (\<exists>df g'. generate_weather_data 739000 (\<lambda>k. 0) = Inr (df, g') \<and>
       lines_of (to_csv df) = ''date,city,temperature'' # map csv_row df \<and>
       length (lines_of (to_csv df)) = 181 \<and>
       line_shows (lines_of (to_csv df) ! Suc 0) (df ! 0) \<and>
       (\<forall>r \<in> set df. \<exists>d. date r = DateObj d \<and>
           csv_row r = isoformat d @ '','' @ city r @ '','' @ float_repr (temperature r) \<and>
           iso_shape (isoformat d) \<and> read_ymd (isoformat d) = ord2ymd d \<and>
           one_decimal (float_repr (temperature r)) \<and>
           read_decimal (float_repr (temperature r)) = temperature r))"
proof -
  have h1: "(0::int) < 3 \<and> (3::int) < 739000 \<and> (\<forall>c \<in> set [''A'', ''B'']. \<not> list_ex csv_special c)"
    by (simp add: csv_special_def)
  have h2: "(30::int) < 739000" by simp
  have h3: "(0::nat) < 180" by simp
  from C7_csv_header_and_one_row_per_reading [OF valid_739000, of 3 "[''A'', ''B'']" "\<lambda>k. 0"] h1 h2 h3
  show ?thesis by blast
qed


text \<open>
  C10. The script's frame lists the cities in the order London, New York, Tokyo, Berlin,
  Moscow, Sydney, thirty rows each: row \<open>30 * c + i\<close> belongs to the \<open>c\<close>-th city and
  to day \<open>today - 30 + i\<close>, so within a city the dates ascend from \<open>today - 30\<close> to
  \<open>today - 1\<close>. The CSV file keeps this order: after the header, line \<open>1 + 30 * c + i\<close>
  has the three fields date, city, temperature of row \<open>30 * c + i\<close>; its date field is
  day \<open>today - 30 + i\<close> written as \<^verbatim>\<open>YYYY-MM-DD\<close> (the three numbers are the year, month
  and day of that day), its city field is the \<open>c\<close>-th city, and its last field is the
  row's temperature.
\<close>

theorem C10_rows_are_city_major_and_date_ascending:
  assumes "valid_date today" and "30 < today"
  shows "\<exists>df g'. generate_weather_data today g = Inr (df, g') \<and>
           length df = 180 \<and>
           (\<forall>c < 6. \<forall>i < 30.
               city (df ! (c * 30 + i)) =
                 [''London'', ''New York'', ''Tokyo'', ''Berlin'', ''Moscow'', ''Sydney''] ! c \<and>
               date (df ! (c * 30 + i)) = DateObj (today - 30 + int i)) \<and>
           (\<forall>c \<in> set cities. map date (filter (\<lambda>r. city r = c) df) =
               map (\<lambda>i. DateObj (today - 30 + i)) (py_range 30)) \<and>
           lines_of (to_csv df) = ''date,city,temperature'' # map csv_row df \<and>
           length (lines_of (to_csv df)) = 181 \<and>
           (\<forall>c < 6. \<forall>i < 30.
               split_on (CHR '','') (lines_of (to_csv df) ! (1 + c * 30 + i)) =
                 [isoformat (today - 30 + int i),
                  [''London'', ''New York'', ''Tokyo'', ''Berlin'', ''Moscow'', ''Sydney''] ! c,
                  float_repr (temperature (df ! (c * 30 + i)))] \<and>
               read_ymd (isoformat (today - 30 + int i)) = ord2ymd (today - 30 + int i) \<and>
               read_decimal (float_repr (temperature (df ! (c * 30 + i)))) =
                 temperature (df ! (c * 30 + i)) \<and>
               line_shows (lines_of (to_csv df) ! (1 + c * 30 + i)) (df ! (c * 30 + i)))"
proof -
  have le: "today \<le> MAXORDINAL"
    using assms(1) by (simp add: valid_date_def)
  have n: "0 < today - 30" using assms(2) by simp
  from generate_for_keys [OF assms(2) le, of cities g]
  obtain df g' where r: "generate_for cities 30 today g = Inr (df, g')"
    and k: "map key_of df = window_keys cities 30 today" by blast
  have "length (map key_of df) = 180"
    by (simp add: k length_window_keys length_cities)
  then have len: "length df = 180" by simp
  have idx: "city (df ! (c * 30 + i)) =
                 [''London'', ''New York'', ''Tokyo'', ''Berlin'', ''Moscow'', ''Sydney''] ! c \<and>
               date (df ! (c * 30 + i)) = DateObj (today - 30 + int i)"
    if "c < 6" "i < 30" for c i
  proof -
    have c: "c < length cities" using that(1) by (simp add: length_cities)
    have i: "i < nat 30" using that(2) by simp
    have j: "c * 30 + i < length df" using that by (simp add: len)
    from nth_window_keys [OF c i, of today]
    have "map key_of df ! (c * 30 + i) = (cities ! c, DateObj (today - 30 + int i))"
      by (simp add: k)
    then show ?thesis
      using j by (simp add: key_of_def cities_def)
  qed
  have per_city: "map date (filter (\<lambda>r. city r = c) df) =
      map (\<lambda>i. DateObj (today - 30 + i)) (py_range 30)" if "c \<in> set cities" for c
    by (simp add: filter_city_keys k filter_window_keys [OF distinct_cities that] comp_def)
  from csv_of_generated [OF n assms(2) le r cities_plain]
  have csv: "lines_of (to_csv df) = ''date,city,temperature'' # map csv_row df"
    unfolding csv_header_def by blast
  have l181: "length (lines_of (to_csv df)) = 181"
    by (simp add: csv len)
  have line: "split_on (CHR '','') (lines_of (to_csv df) ! (1 + c * 30 + i)) =
                 [isoformat (today - 30 + int i),
                  [''London'', ''New York'', ''Tokyo'', ''Berlin'', ''Moscow'', ''Sydney''] ! c,
                  float_repr (temperature (df ! (c * 30 + i)))] \<and>
               read_ymd (isoformat (today - 30 + int i)) = ord2ymd (today - 30 + int i) \<and>
               read_decimal (float_repr (temperature (df ! (c * 30 + i)))) =
                 temperature (df ! (c * 30 + i)) \<and>
               line_shows (lines_of (to_csv df) ! (1 + c * 30 + i)) (df ! (c * 30 + i))"
    if "c < 6" "i < 30" for c i
  proof -
    define x where "x = df ! (c * 30 + i)"
    have j: "c * 30 + i < length df" using that by (simp add: len)
    then have l: "lines_of (to_csv df) ! (1 + c * 30 + i) = csv_row x"
      by (simp add: csv x_def)
    have xin: "x \<in> set df" using j by (simp add: x_def)
    have cx: "city x = [''London'', ''New York'', ''Tokyo'', ''Berlin'', ''Moscow'', ''Sydney''] ! c"
      and dx: "date x = DateObj (today - 30 + int i)"
      using idx [OF that] by (simp_all add: x_def)
    have vd: "valid_date (today - 30 + int i)"
      using assms that(2) by (simp add: valid_date_def)
    from generated_rows [OF assms(2) le r xin] have "city x \<in> set cities" by blast
    then have pl: "\<not> list_ex csv_special (city x)"
      using cities_plain by blast
    from csv_row_fields [OF dx vd pl] line_shows_csv_row [OF dx vd pl]
      isoformat_reads_back(1) [OF vd] float_repr_reads_back [of "temperature x"]
    show ?thesis
      unfolding l by (simp add: cx x_def [symmetric])
  qed
  from r len idx per_city csv l181 line show ?thesis
    unfolding generate_weather_data_def by blast
qed

theorem C10_witness:
  "\<exists>df g'. generate_weather_data 739000 (\<lambda>k. 0) = Inr (df, g') \<and>
      length df = 180 \<and>
      city (df ! (2 * 30 + 29)) =
        [''London'', ''New York'', ''Tokyo'', ''Berlin'', ''Moscow'', ''Sydney''] ! 2 \<and>
      date (df ! (2 * 30 + 29)) = DateObj (739000 - 30 + int 29) \<and>
      map date (filter (\<lambda>r. city r = ''Tokyo'') df) =
        map (\<lambda>i. DateObj (739000 - 30 + i)) (py_range 30) \<and>
      lines_of (to_csv df) = ''date,city,temperature'' # map csv_row df \<and>
      length (lines_of (to_csv df)) = 181 \<and>
      split_on (CHR '','') (lines_of (to_csv df) ! (1 + 2 * 30 + 29)) =
        [isoformat (739000 - 30 + int 29),
         [''London'', ''New York'', ''Tokyo'', ''Berlin'', ''Moscow'', ''Sydney''] ! 2,
         float_repr (temperature (df ! (2 * 30 + 29)))] \<and>
      line_shows (lines_of (to_csv df) ! (1 + 2 * 30 + 29)) (df ! (2 * 30 + 29))"
proof -
  have h: "(30::int) < 739000" by simp
  have c: "(2::nat) < 6" and i: "(29::nat) < 30" by simp_all
  have t: "''Tokyo'' \<in> set cities" by (simp add: cities_def)
  from C10_rows_are_city_major_and_date_ascending [OF valid_739000 h, of "\<lambda>k. 0"] c i t
  show ?thesis by blast
qed

section \<open>The two renderers\<close>

lemma to_datetime_cell_cases:
  "to_datetime_cell c = Inr (Timestamp (cell_day c)) \<or> to_datetime_cell c = Inl OutOfBoundsDatetime"
  by (cases c) (simp_all add: to_datetime_cell_def Let_def)

lemma to_datetime_Inr:
  "to_datetime cs = Inr ts \<Longrightarrow> ts = map (\<lambda>c. Timestamp (cell_day c)) cs"
proof (induction cs arbitrary: ts)
  case Nil
  then show ?case by simp
next
  case (Cons c cs)
  from Cons.prems to_datetime_cell_cases [of c]
  obtain ts' where "to_datetime_cell c = Inr (Timestamp (cell_day c))" "to_datetime cs = Inr ts'"
    "ts = Timestamp (cell_day c) # ts'"
    by (auto split: sum.splits)
  then show ?case using Cons.IH by simp
qed

lemma to_datetime_in_range:
  assumes "\<forall>c \<in> set cs. \<exists>d. c = DateObj d \<and> 612412 \<le> d \<and> d \<le> 825914"
  shows "to_datetime cs = Inr (map (\<lambda>c. Timestamp (cell_day c)) cs)"
  using assms
proof (induction cs)
  case Nil
  show ?case by simp
next
  case (Cons c cs)
  then obtain d where d: "c = DateObj d" "612412 \<le> d" "d \<le> 825914" by auto
  have "to_datetime_cell c = Inr (Timestamp d)"
    using d by (simp add: to_datetime_cell_def Let_def)
  then show ?case using Cons d(1) by simp
qed

lemma set_date_column_map:
  "set_date_column df (map f (map date df)) = map (\<lambda>r. r\<lparr>date := f (date r)\<rparr>) df"
  by (induction df) (simp_all add: set_date_column_def)

lemma plot_temperature_changes_frame:
  "(\<exists>e. plot_temperature_changes df = (df, Inl e)) \<or>
   (\<exists>ch. plot_temperature_changes df =
      (map (\<lambda>r. r\<lparr>date := Timestamp (cell_day (date r))\<rparr>) df, Inr ch))"
proof (cases "to_datetime (map date df)")
  case (Inl e)
  then show ?thesis by (simp add: plot_temperature_changes_def)
next
  case (Inr col)
  then have "col = map (\<lambda>c. Timestamp (cell_day c)) (map date df)"
    by (rule to_datetime_Inr)
  then have "set_date_column df col = map (\<lambda>r. r\<lparr>date := Timestamp (cell_day (date r))\<rparr>) df"
    by (simp only: set_date_column_map)
  then show ?thesis
    using Inr by (simp add: plot_temperature_changes_def Let_def)
qed

lemma plot_temperature_changes_in_range:
  assumes "\<forall>r \<in> set df. \<exists>d. date r = DateObj d \<and> 612412 \<le> d \<and> d \<le> 825914"
  shows "\<exists>ch. plot_temperature_changes df =
      (map (\<lambda>r. r\<lparr>date := Timestamp (cell_day (date r))\<rparr>) df, Inr ch)"
proof -
  have "\<forall>c \<in> set (map date df). \<exists>d. c = DateObj d \<and> 612412 \<le> d \<and> d \<le> 825914"
    using assms by auto
  then have "to_datetime (map date df) = Inr (map (\<lambda>c. Timestamp (cell_day c)) (map date df))"
    by (rule to_datetime_in_range)
  then have "\<exists>ch. snd (plot_temperature_changes df) = Inr ch"
    by (simp add: plot_temperature_changes_def Let_def)
  then show ?thesis
    using plot_temperature_changes_frame [of df] by auto
qed

text \<open>
  C6, as the code has it. \<^verbatim>\<open>plot_temperature_distribution\<close> leaves the caller's frame as
  it was. \<^verbatim>\<open>plot_temperature_changes\<close> assigns \<^verbatim>\<open>df["date"] = pd.to_datetime(df["date"])\<close>
  on the caller's own frame before it rebinds \<^verbatim>\<open>df\<close> to the sorted copy: the rows, their
  order, the cities and the temperatures stay, and every date cell is replaced by the
  timestamp of its day (unless the conversion fails, and then nothing is changed). For
  the frame the script generates, with today between 1677-10-22 and 2262-04-12, the
  conversion succeeds and the frame the caller holds afterwards differs from the one it
  passed.
\<close>

theorem C6_renderers_and_the_callers_frame:
  "fst (plot_temperature_distribution df) = df \<and>
   length (fst (plot_temperature_changes df)) = length df \<and>
   map city (fst (plot_temperature_changes df)) = map city df \<and>
   map temperature (fst (plot_temperature_changes df)) = map temperature df \<and>
   (case snd (plot_temperature_changes df) of
      Inl e \<Rightarrow> fst (plot_temperature_changes df) = df
    | Inr ch \<Rightarrow> map date (fst (plot_temperature_changes df)) =
               map (\<lambda>r. Timestamp (cell_day (date r))) df) \<and>
   (612442 \<le> today \<and> today \<le> 825915 \<longrightarrow>
      (\<exists>frame g' ch. generate_weather_data today g = Inr (frame, g') \<and>
          plot_temperature_changes frame =
            (map (\<lambda>r. r\<lparr>date := Timestamp (cell_day (date r))\<rparr>) frame, Inr ch) \<and>
          fst (plot_temperature_changes frame) \<noteq> frame))"
proof (intro conjI impI)
  show "fst (plot_temperature_distribution df) = df"
    by (simp add: plot_temperature_distribution_def)
  from plot_temperature_changes_frame [of df]
  show "length (fst (plot_temperature_changes df)) = length df"
    and "map city (fst (plot_temperature_changes df)) = map city df"
    and "map temperature (fst (plot_temperature_changes df)) = map temperature df"
    and "case snd (plot_temperature_changes df) of
      Inl e \<Rightarrow> fst (plot_temperature_changes df) = df
    | Inr ch \<Rightarrow> map date (fst (plot_temperature_changes df)) =
               map (\<lambda>r. Timestamp (cell_day (date r))) df"
    by (auto simp: comp_def)
  assume t: "612442 \<le> today \<and> today \<le> 825915"
  then have n: "30 < today" and le: "today \<le> MAXORDINAL"
    by (simp_all add: MAXORDINAL_def)
  from generate_for_keys [OF n le, of cities g]
  obtain frame g' where r: "generate_for cities 30 today g = Inr (frame, g')"
    and k: "map key_of frame = window_keys cities 30 today" by blast
  have rows: "\<exists>d. date x = DateObj d \<and> 612412 \<le> d \<and> d \<le> 825914" if "x \<in> set frame" for x
    using generated_rows [OF n le r that] t by auto
  then obtain ch where p: "plot_temperature_changes frame =
      (map (\<lambda>r. r\<lparr>date := Timestamp (cell_day (date r))\<rparr>) frame, Inr ch)"
    using plot_temperature_changes_in_range [of frame] by blast
  have "length (map key_of frame) = 180"
    by (simp add: k length_window_keys length_cities)
  then obtain x xs where f: "frame = x # xs" by (cases frame) auto
  then obtain d where "date x = DateObj d" using rows [of x] by auto
  moreover have "fst (plot_temperature_changes frame) =
      map (\<lambda>r. r\<lparr>date := Timestamp (cell_day (date r))\<rparr>) frame"
    by (simp add: p)
  moreover have "x\<lparr>date := Timestamp (cell_day (date x))\<rparr> \<noteq> x"
  proof
    assume "x\<lparr>date := Timestamp (cell_day (date x))\<rparr> = x"
    then have "date (x\<lparr>date := Timestamp (cell_day (date x))\<rparr>) = date x"
      by (rule arg_cong)
    then show False using \<open>date x = DateObj d\<close> by simp
  qed
  ultimately have "fst (plot_temperature_changes frame) \<noteq> frame"
    by (simp add: f)
  with r p show "\<exists>frame g' ch. generate_weather_data today g = Inr (frame, g') \<and>
          plot_temperature_changes frame =
            (map (\<lambda>r. r\<lparr>date := Timestamp (cell_day (date r))\<rparr>) frame, Inr ch) \<and>
          fst (plot_temperature_changes frame) \<noteq> frame"
    unfolding generate_weather_data_def by blast
qed

theorem C6_witness:
  "\<exists>frame g' ch. generate_weather_data 739000 (\<lambda>k. 0) = Inr (frame, g') \<and>
      plot_temperature_changes frame =
        (map (\<lambda>r. r\<lparr>date := Timestamp (cell_day (date r))\<rparr>) frame, Inr ch) \<and>
      fst (plot_temperature_changes frame) \<noteq> frame"
proof -
  have h: "(612442::int) \<le> 739000 \<and> (739000::int) \<le> 825915" by simp
  from C6_renderers_and_the_callers_frame [of "[]" 739000 "\<lambda>k. 0"] h
  show ?thesis by blast
qed

text \<open>
  The claim as written has the caller's frame unchanged after the line chart is drawn.
  For a frame of one row, dated day 739000 (2024-04-24), the caller is left with the
  timestamp of that day in place of the date.
\<close>

theorem C6_counterexample:
  "fst (plot_temperature_changes
         [\<lparr>date = DateObj 739000, city = ''London'', temperature = Dec1 False 123\<rparr>]) =
     [\<lparr>date = Timestamp 739000, city = ''London'', temperature = Dec1 False 123\<rparr>] \<and>
   fst (plot_temperature_changes
         [\<lparr>date = DateObj 739000, city = ''London'', temperature = Dec1 False 123\<rparr>]) \<noteq>
     [\<lparr>date = DateObj 739000, city = ''London'', temperature = Dec1 False 123\<rparr>]"
  by (simp add: plot_temperature_changes_def to_datetime_cell_def set_date_column_def Let_def)













end
